theory Spec2Isabelle
  imports Complex_Main "HOL-Library.Multiset"
begin

section \<open>JavaScript values and numbers\<close>

text \<open>
  The cell arrays of the hash are flat JavaScript arrays that mix coordinates (numbers)
  with the caller's opaque values. An array read past the end gives \<open>undefined\<close>.
  Finite numbers are modelled as reals; strict equality \<open>===\<close> is then equality of
  the model values. The arithmetic is the one of the reals, except in the radius query
  of the point index, whose result depends on the rounding of the double arithmetic:
  there the rounding is a parameter \<open>fl\<close> of the model, applied to the result of every
  arithmetic operation.
\<close>

datatype 'v jsval = Num real | Val 'v | Undefined

type_synonym cell = "int \<times> int"

text \<open>Reading \<open>arr[k]\<close>: \<open>undefined\<close> past the end of the array.\<close>

definition nth_js :: "'v jsval list \<Rightarrow> nat \<Rightarrow> 'v jsval" where
  "nth_js arr k = (if k < length arr then arr ! k else Undefined)"

text \<open>
  \<open>v | 0\<close> is ToInt32: truncate towards zero, then wrap into the signed 32-bit range.
  A division by a zero cell size gives an infinity or NaN in JavaScript, which ToInt32
  maps to 0; in HOL \<open>x / 0 = 0\<close>, and \<open>toInt32 0 = 0\<close>, so \<open>toInt32 (x / sz)\<close> agrees
  with \<open>(x / sz) | 0\<close> also for \<open>sz = 0\<close>.
\<close>

definition toInt32 :: "real \<Rightarrow> int" where
  "toInt32 v =
     (let t = (if v < 0 then \<lceil>v\<rceil> else \<lfloor>v\<rfloor>);
          m = t mod 2 ^ 32
      in if m \<ge> 2 ^ 31 then m - 2 ^ 32 else m)"

text \<open>
  Inside \<open>cellsUnderSegment\<close> the slopes \<open>dy / dx\<close> and \<open>dx / dy\<close> divide by zero for
  axis-aligned segments, so that part of the arithmetic runs over numbers extended with
  the two infinities and NaN, with the IEEE rules for them.
\<close>

datatype jsnum = Fin real | PInf | NInf | NaN

fun jneg :: "jsnum \<Rightarrow> jsnum" where
  "jneg (Fin a) = Fin (- a)"
| "jneg PInf = NInf"
| "jneg NInf = PInf"
| "jneg NaN = NaN"

fun jadd :: "jsnum \<Rightarrow> jsnum \<Rightarrow> jsnum" where
  "jadd (Fin a) (Fin b) = Fin (a + b)"
| "jadd NaN _ = NaN"
| "jadd _ NaN = NaN"
| "jadd PInf NInf = NaN"
| "jadd NInf PInf = NaN"
| "jadd PInf PInf = PInf"
| "jadd PInf (Fin b) = PInf"
| "jadd (Fin a) PInf = PInf"
| "jadd NInf NInf = NInf"
| "jadd NInf (Fin b) = NInf"
| "jadd (Fin a) NInf = NInf"

definition jsub :: "jsnum \<Rightarrow> jsnum \<Rightarrow> jsnum" where
  "jsub a b = jadd a (jneg b)"

text \<open>The sign of a product with an infinity; \<open>0 * Infinity\<close> is NaN.\<close>

definition inf_times :: "bool \<Rightarrow> real \<Rightarrow> jsnum" where
  "inf_times pos a =
     (if a = 0 then NaN else if (0 < a) = pos then PInf else NInf)"

fun jmul :: "jsnum \<Rightarrow> jsnum \<Rightarrow> jsnum" where
  "jmul (Fin a) (Fin b) = Fin (a * b)"
| "jmul NaN _ = NaN"
| "jmul _ NaN = NaN"
| "jmul (Fin a) PInf = inf_times True a"
| "jmul (Fin a) NInf = inf_times False a"
| "jmul PInf (Fin a) = inf_times True a"
| "jmul NInf (Fin a) = inf_times False a"
| "jmul PInf PInf = PInf"
| "jmul NInf NInf = PInf"
| "jmul PInf NInf = NInf"
| "jmul NInf PInf = NInf"

text \<open>
  Division of two finite numbers. The sign of a zero divisor is not modelled: the only
  quotients of the program are taken under \<open>Math.abs\<close>.
\<close>

definition jdiv :: "real \<Rightarrow> real \<Rightarrow> jsnum" where
  "jdiv a b =
     (if b = 0 then (if a = 0 then NaN else if 0 < a then PInf else NInf)
      else Fin (a / b))"

fun jabs :: "jsnum \<Rightarrow> jsnum" where
  "jabs (Fin a) = Fin \<bar>a\<bar>"
| "jabs PInf = PInf"
| "jabs NInf = PInf"
| "jabs NaN = NaN"

text \<open>Comparisons: every comparison with NaN is false.\<close>

fun jle :: "jsnum \<Rightarrow> jsnum \<Rightarrow> bool" where
  "jle (Fin a) (Fin b) = (a \<le> b)"
| "jle NaN _ = False"
| "jle _ NaN = False"
| "jle NInf (Fin b) = True"
| "jle NInf NInf = True"
| "jle NInf PInf = True"
| "jle (Fin a) PInf = True"
| "jle PInf PInf = True"
| "jle (Fin a) NInf = False"
| "jle PInf (Fin b) = False"
| "jle PInf NInf = False"

fun jlt :: "jsnum \<Rightarrow> jsnum \<Rightarrow> bool" where
  "jlt (Fin a) (Fin b) = (a < b)"
| "jlt NaN _ = False"
| "jlt _ NaN = False"
| "jlt PInf (Fin b) = False"
| "jlt PInf PInf = False"
| "jlt PInf NInf = False"
| "jlt (Fin a) NInf = False"
| "jlt NInf NInf = False"
| "jlt (Fin a) PInf = True"
| "jlt NInf (Fin b) = True"
| "jlt NInf PInf = True"

text \<open>\<open>Math.sign\<close> of a finite number, as the integer it is added to a cell coordinate.\<close>

definition sign :: "real \<Rightarrow> int" where
  "sign v = (if v < 0 then - 1 else if 0 < v then 1 else 0)"

section \<open>The grid index\<close>

text \<open>
  \<open>class SpatialHash\<close>: the stride \<open>numElements\<close>, the cell size and the map from cell
  keys to flat arrays. The key of the source is the string \<open>cellX + ',' + cellY\<close>;
  for integer cell coordinates it determines the pair and is modelled by it.
\<close>

record 'v SpatialHash =
  numElements :: nat
  cellSize :: real
  map_js :: "cell \<rightharpoonup> 'v jsval list"

definition SpatialHash :: "nat \<Rightarrow> real \<Rightarrow> 'v SpatialHash" where
  "SpatialHash n sz = \<lparr>numElements = n, cellSize = sz, map_js = Map.empty\<rparr>"

subsection \<open>findSubArray\<close>

text \<open>
  The inner loop of \<open>findSubArray\<close> counts the leading arguments that are equal
  (\<open>===\<close>) to \<open>arr[i + j]\<close> and stops at the first that differs.
\<close>

fun found_count :: "'v jsval list \<Rightarrow> nat \<Rightarrow> 'v jsval list \<Rightarrow> nat" where
  "found_count arr i [] = 0"
| "found_count arr i (a # args) =
     (if a \<noteq> nth_js arr i then 0 else Suc (found_count arr (Suc i) args))"

text \<open>
  The outer loop advances \<open>i\<close> by the stride. With a stride of 0 it never advances, so
  the loop is a partial function: \<open>None\<close> stands for a call that does not return.
\<close>

partial_function (option) findSubArray_from ::
  "'v jsval list \<Rightarrow> nat \<Rightarrow> 'v jsval list \<Rightarrow> nat \<Rightarrow> int option" where
  "findSubArray_from arr stride args i =
     (if i < length arr then
        (if found_count arr i args = length args then Some (int i)
         else findSubArray_from arr stride args (i + stride))
      else Some (- 1))"

declare findSubArray_from.simps [code]

definition findSubArray :: "'v jsval list \<Rightarrow> nat \<Rightarrow> 'v jsval list \<Rightarrow> int option" where
  "findSubArray arr stride args = findSubArray_from arr stride args 0"

subsection \<open>Storage primitives\<close>

definition addAt :: "'v SpatialHash \<Rightarrow> int \<Rightarrow> int \<Rightarrow> 'v jsval list \<Rightarrow> 'v SpatialHash" where
  "addAt h cellX cellY args =
     (let key = (cellX, cellY);
          arr = (case map_js h key of None \<Rightarrow> [] | Some a \<Rightarrow> a)
      in h\<lparr>map_js := (map_js h)(key \<mapsto> arr @ args)\<rparr>)"

definition findIndex :: "'v SpatialHash \<Rightarrow> int \<Rightarrow> int \<Rightarrow> 'v jsval list \<Rightarrow> int option" where
  "findIndex h cellX cellY args =
     (case map_js h (cellX, cellY) of
        None \<Rightarrow> Some (- 1)
      | Some arr \<Rightarrow> findSubArray arr (numElements h) args)"

text \<open>
  \<open>findValues\<close> returns \<open>undefined\<close> (the inner \<open>None\<close>) or a copy of the record,
  \<open>arr.slice(idx, idx + numElements)\<close>, for the non-negative \<open>idx\<close> that was found.
\<close>

definition findValues ::
  "'v SpatialHash \<Rightarrow> int \<Rightarrow> int \<Rightarrow> 'v jsval list \<Rightarrow> 'v jsval list option option" where
  "findValues h cellX cellY args =
     (case map_js h (cellX, cellY) of
        None \<Rightarrow> Some None
      | Some arr \<Rightarrow>
          (case findSubArray arr (numElements h) args of
             None \<Rightarrow> None
           | Some idx \<Rightarrow>
               if idx = - 1 then Some None
               else Some (Some (take (numElements h) (drop (nat idx) arr)))))"

text \<open>
  \<open>arr.splice(idx, n)\<close>: a negative start counts from the end, the start is clamped to
  the array, and at most the rest of the array is removed. The result is the removed
  elements and the array that is left.
\<close>

definition splice :: "'a list \<Rightarrow> int \<Rightarrow> nat \<Rightarrow> 'a list \<times> 'a list" where
  "splice arr idx n =
     (let len = int (length arr);
          start = nat (if idx < 0 then max (len + idx) 0 else min idx len);
          cnt = min n (length arr - start)
      in (take cnt (drop start arr), take start arr @ drop (start + cnt) arr))"

definition removeAt ::
  "'v SpatialHash \<Rightarrow> int \<Rightarrow> int \<Rightarrow> int \<Rightarrow> 'v jsval list \<times> 'v SpatialHash" where
  "removeAt h cellX cellY idx =
     (let key = (cellX, cellY) in
      case map_js h key of
        None \<Rightarrow> ([], h)
      | Some arr \<Rightarrow>
          (let (ret, arr') = splice arr idx (numElements h) in
           if arr' = [] then (ret, h\<lparr>map_js := (map_js h)(key := None)\<rparr>)
           else (ret, h\<lparr>map_js := (map_js h)(key \<mapsto> arr')\<rparr>)))"

subsection \<open>Cell enumeration\<close>

text \<open>
  \<open>cellsUnderExtent\<close>: row-major, \<open>cellY\<close> outside and \<open>cellX\<close> inside. The sums and
  the quotients are rounded by \<open>fl\<close>; the increment of an \<open>int32\<close> is exact. (For a zero
  cell size and a rounding with \<open>fl 0 = 0\<close> the cell coordinates are 0, as in the source.)
\<close>

definition cellsUnderExtent ::
  "(real \<Rightarrow> real) \<Rightarrow> 'v SpatialHash \<Rightarrow> real \<Rightarrow> real \<Rightarrow> real \<Rightarrow> real \<Rightarrow> cell list" where
  "cellsUnderExtent fl h x y width height =
     (let sz = cellSize h;
          startX = toInt32 (fl (x / sz));
          startY = toInt32 (fl (y / sz));
          endX = toInt32 (fl (fl (x + width) / sz)) + 1;
          endY = toInt32 (fl (fl (y + height) / sz)) + 1
      in concat (map (\<lambda>cellY. map (\<lambda>cellX. (cellX, cellY)) [startX ..  endX - 1])
                     [startY .. endY - 1]))"

text \<open>
  The generator \<open>cellsUnderSegment\<close> keeps the set \<open>seen\<close> of emitted keys;
  \<open>canEmit\<close> adds the key and answers whether it was new. The emitter state pairs
  \<open>seen\<close> with the cells yielded so far.
\<close>

type_synonym emitter = "cell set \<times> cell list"

definition canEmit :: "cell \<Rightarrow> cell set \<Rightarrow> bool \<times> cell set" where
  "canEmit key seen = (let ret = (key \<in> seen) in (\<not> ret, insert key seen))"

text \<open>\<open>if(canEmit(x, y)){ yield [x, y]; }\<close>\<close>

definition emit :: "cell \<Rightarrow> emitter \<Rightarrow> emitter" where
  "emit c e =
     (let (ok, seen') = canEmit c (fst e)
      in (seen', if ok then snd e @ [c] else snd e))"

text \<open>
  The block of boundary tests and emissions, which the source has twice with the same
  text: in the loop body (lines 207 to 232) and after the loop (lines 254 to 279).
\<close>

definition emitAround ::
  "int \<Rightarrow> int \<Rightarrow> jsnum \<Rightarrow> jsnum \<Rightarrow> jsnum \<Rightarrow> jsnum \<Rightarrow> jsnum \<Rightarrow> emitter \<Rightarrow> emitter" where
  "emitAround cellX cellY lft rgt top' bot' eps e0 =
     (let e1 = (if jle lft eps then
                  (let a = emit (cellX - 1, cellY) e0;
                       b = (if jle top' eps then emit (cellX - 1, cellY - 1) a else a)
                   in (if jle bot' eps then emit (cellX - 1, cellY + 1) b else b))
                else e0);
          e2 = (if jle rgt eps then
                  (let a = emit (cellX + 1, cellY) e1;
                       b = (if jle top' eps then emit (cellX + 1, cellY - 1) a else a)
                   in (if jle bot' eps then emit (cellX + 1, cellY + 1) b else b))
                else e1);
          e3 = (if jle top' eps then emit (cellX, cellY - 1) e2 else e2);
          e4 = (if jle bot' eps then emit (cellX, cellY + 1) e3 else e3)
      in emit (cellX, cellY) e4)"

text \<open>The constants of one call, and the variables of its loop.\<close>

record walk_consts =
  k_sz :: real
  k_dirX :: int
  k_dirY :: int
  k_dydx :: jsnum
  k_dxdy :: jsnum
  k_endCellX :: int
  k_endCellY :: int
  k_steps :: int
  k_eps :: jsnum

record walk_state =
  w_x :: jsnum
  w_y :: jsnum
  w_cellX :: int
  w_cellY :: int
  w_iter :: int
  w_emitter :: emitter

text \<open>One execution of the loop body (lines 194 to 244).\<close>

definition walk_body :: "walk_consts \<Rightarrow> walk_state \<Rightarrow> walk_state" where
  "walk_body k s =
     (let sz = k_sz k;
          lft = jsub (w_x s) (Fin (of_int (w_cellX s) * sz));
          rgt = jsub (Fin (of_int (w_cellX s + 1) * sz)) (w_x s);
          distX = (if k_dirX k < 0 then lft else rgt);
          top' = jsub (w_y s) (Fin (of_int (w_cellY s) * sz));
          bot' = jsub (Fin (of_int (w_cellY s + 1) * sz)) (w_y s);
          distY = (if k_dirY k < 0 then top' else bot');
          horX = distX;
          horY = jmul distX (k_dydx k);
          verX = jmul distY (k_dxdy k);
          verY = distY;
          hor = jadd (jmul horX horX) (jmul horY horY);
          ver = jadd (jmul verX verX) (jmul verY verY);
          e = emitAround (w_cellX s) (w_cellY s) lft rgt top' bot' (k_eps k) (w_emitter s)
      in if jlt hor ver then
           s\<lparr>w_x := jadd (w_x s) (jmul horX (Fin (of_int (k_dirX k)))),
             w_y := jadd (w_y s) (jmul horY (Fin (of_int (k_dirY k)))),
             w_cellX := w_cellX s + k_dirX k,
             w_iter := w_iter s + 1,
             w_emitter := e\<rparr>
         else
           s\<lparr>w_x := jadd (w_x s) (jmul verX (Fin (of_int (k_dirX k)))),
             w_y := jadd (w_y s) (jmul verY (Fin (of_int (k_dirY k)))),
             w_cellY := w_cellY s + k_dirY k,
             w_iter := w_iter s + 1,
             w_emitter := e\<rparr>)"

definition walk_cond :: "walk_consts \<Rightarrow> walk_state \<Rightarrow> bool" where
  "walk_cond k s =
     ((w_cellX s \<noteq> k_endCellX k \<or> w_cellY s \<noteq> k_endCellY k) \<and> w_iter s \<le> k_steps k)"

function walk :: "walk_consts \<Rightarrow> walk_state \<Rightarrow> walk_state" where
  "walk k s = (if walk_cond k s then walk k (walk_body k s) else s)"
  by pat_completeness auto
termination
  by (relation "measure (\<lambda>(k, s). nat (k_steps k + 1 - w_iter s))")
     (auto simp: walk_cond_def walk_body_def Let_def)

declare walk.simps [simp del]

text \<open>The number of times the loop body is executed from a state.\<close>

function walk_count :: "walk_consts \<Rightarrow> walk_state \<Rightarrow> nat" where
  "walk_count k s = (if walk_cond k s then Suc (walk_count k (walk_body k s)) else 0)"
  by pat_completeness auto
termination
  by (relation "measure (\<lambda>(k, s). nat (k_steps k + 1 - w_iter s))")
     (auto simp: walk_cond_def walk_body_def Let_def)

declare walk_count.simps [simp del]

definition walk_consts_of ::
  "real \<Rightarrow> real \<Rightarrow> real \<Rightarrow> real \<Rightarrow> real \<Rightarrow> real \<Rightarrow> walk_consts" where
  "walk_consts_of sz x1 y1 x2 y2 eps =
     (let dx = x2 - x1;
          dy = y2 - y1;
          startCellX = toInt32 (x1 / sz);
          startCellY = toInt32 (y1 / sz);
          endCellX = toInt32 (x2 / sz);
          endCellY = toInt32 (y2 / sz)
      in \<lparr>k_sz = sz,
          k_dirX = sign dx,
          k_dirY = sign dy,
          k_dydx = jabs (jdiv dy dx),
          k_dxdy = jabs (jdiv dx dy),
          k_endCellX = endCellX,
          k_endCellY = endCellY,
          k_steps = \<bar>endCellX - startCellX\<bar> + \<bar>endCellY - startCellY\<bar>,
          k_eps = Fin eps\<rparr>)"

definition walk_init :: "real \<Rightarrow> real \<Rightarrow> real \<Rightarrow> walk_state" where
  "walk_init sz x1 y1 =
     \<lparr>w_x = Fin x1, w_y = Fin y1,
      w_cellX = toInt32 (x1 / sz), w_cellY = toInt32 (y1 / sz),
      w_iter = 0, w_emitter = ({}, [])\<rparr>"

text \<open>The state in which the loop of \<open>cellsUnderSegment\<close> ends.\<close>

definition segment_walk ::
  "'v SpatialHash \<Rightarrow> real \<Rightarrow> real \<Rightarrow> real \<Rightarrow> real \<Rightarrow> real \<Rightarrow> walk_state" where
  "segment_walk h x1 y1 x2 y2 eps =
     walk (walk_consts_of (cellSize h) x1 y1 x2 y2 eps) (walk_init (cellSize h) x1 y1)"

text \<open>
  \<open>cellsUnderSegment\<close>: the loop, then the emissions around the end point in the end
  cell. The result is the sequence of yielded cells. The default of \<open>eps\<close> is
  \<open>cellSize / 2\<close>.
\<close>

definition cellsUnderSegment ::
  "'v SpatialHash \<Rightarrow> real \<Rightarrow> real \<Rightarrow> real \<Rightarrow> real \<Rightarrow> real \<Rightarrow> cell list" where
  "cellsUnderSegment h x1 y1 x2 y2 eps =
     (let sz = cellSize h;
          s = segment_walk h x1 y1 x2 y2 eps;
          cellX = toInt32 (x2 / sz);
          cellY = toInt32 (y2 / sz);
          lft = x2 - of_int cellX * sz;
          rgt = of_int (cellX + 1) * sz - x2;
          top' = y2 - of_int cellY * sz;
          bot' = of_int (cellY + 1) * sz - y2
      in snd (emitAround cellX cellY (Fin lft) (Fin rgt) (Fin top') (Fin bot') (Fin eps)
                (w_emitter s)))"

definition default_eps :: "'v SpatialHash \<Rightarrow> real" where
  "default_eps h = cellSize h / 2"

text \<open>The Manhattan distance in cells between the start cell and the end cell.\<close>

definition segment_steps :: "'v SpatialHash \<Rightarrow> real \<Rightarrow> real \<Rightarrow> real \<Rightarrow> real \<Rightarrow> int" where
  "segment_steps h x1 y1 x2 y2 =
     (let sz = cellSize h
      in \<bar>toInt32 (x2 / sz) - toInt32 (x1 / sz)\<bar> + \<bar>toInt32 (y2 / sz) - toInt32 (y1 / sz)\<bar>)"

text \<open>The number of iterations of the main loop of one call.\<close>

definition segment_iterations ::
  "'v SpatialHash \<Rightarrow> real \<Rightarrow> real \<Rightarrow> real \<Rightarrow> real \<Rightarrow> real \<Rightarrow> nat" where
  "segment_iterations h x1 y1 x2 y2 eps =
     walk_count (walk_consts_of (cellSize h) x1 y1 x2 y2 eps) (walk_init (cellSize h) x1 y1)"

section \<open>Geometric primitives\<close>

text \<open>\<open>sqdist\<close>, with every difference, product and sum rounded.\<close>

definition sqdist :: "(real \<Rightarrow> real) \<Rightarrow> real \<Rightarrow> real \<Rightarrow> real \<Rightarrow> real \<Rightarrow> real" where
  "sqdist fl ax ay bx by =
     (let dx = fl (ax - bx); dy = fl (ay - by) in fl (fl (dx * dx) + fl (dy * dy)))"

definition segPointDistSq ::
  "real \<Rightarrow> real \<Rightarrow> real \<Rightarrow> real \<Rightarrow> real \<Rightarrow> real \<Rightarrow> real" where
  "segPointDistSq x1 y1 x2 y2 x y =
     (let A = x - x1; B = y - y1; C = x2 - x1; D = y2 - y1;
          dot = A * C + B * D;
          lenSq = C * C + D * D;
          param = (if lenSq = 0 then - 1 else dot / lenSq);
          xx = (if param < 0 then x1 else if param > 1 then x2 else x1 + param * C);
          yy = (if param < 0 then y1 else if param > 1 then y2 else y1 + param * D);
          dx = x - xx; dy = y - yy
      in dx * dx + dy * dy)"

text \<open>
  \<open>intersectSegments\<close>. The only division whose divisor can be zero is the one by
  \<open>rr\<close> in the collinear branch: \<open>rr = 0\<close> makes \<open>rx = ry = 0\<close>, both numerators 0
  and \<open>t0\<close>, \<open>t1\<close> NaN in JavaScript, so that the test of line 618 succeeds; in HOL
  both quotients are 0 and the test succeeds as well.
\<close>

definition intersectSegments ::
  "real \<Rightarrow> real \<Rightarrow> real \<Rightarrow> real \<Rightarrow> real \<Rightarrow> real \<Rightarrow> real \<Rightarrow> real \<Rightarrow> bool" where
  "intersectSegments p1x p1y p2x p2y p3x p3y p4x p4y =
     (let rx = p2x - p1x; ry = p2y - p1y;
          sx = p4x - p3x; sy = p4y - p3y;
          mx = p3x - p1x; my = p3y - p1y;
          n = mx * ry - rx * my;
          d = rx * sy - sx * ry
      in if d = 0 then
           (if n = 0 then
              (let rr = rx * rx + ry * ry;
                   t0 = (mx * rx + my * ry) / rr;
                   t1 = t0 + (sx * rx + sy * ry) / rr
               in if \<not> ((t0 < 0 \<and> t1 < 0) \<or> (t0 > 1 \<and> t1 > 1)) then True else False)
            else False)
         else
           (let u = n / d;
                t = (mx * sy - sx * my) / d
            in if t < 0 \<or> t > 1 \<or> u < 0 \<or> u > 1 then False else True))"

text \<open>
  The number in an array slot. A slot that holds \<open>undefined\<close> makes every arithmetic
  result NaN; the model treats a slot with an opaque value in the same way. The
  \<open>addPoint\<close> and \<open>addSegment\<close> operations only ever put numbers into coordinate slots.
\<close>

fun num_of :: "'v jsval \<Rightarrow> real option" where
  "num_of (Num v) = Some v"
| "num_of _ = None"

section \<open>The point index\<close>

definition PointHash :: "real \<Rightarrow> 'v SpatialHash" where
  "PointHash sz = SpatialHash 3 sz"

definition addPoint :: "'v SpatialHash \<Rightarrow> real \<Rightarrow> real \<Rightarrow> 'v jsval \<Rightarrow> 'v SpatialHash" where
  "addPoint h x y val =
     (let sz = cellSize h
      in addAt h (toInt32 (x / sz)) (toInt32 (y / sz)) [Num x, Num y, val])"

definition findPoint ::
  "'v SpatialHash \<Rightarrow> real \<Rightarrow> real \<Rightarrow> 'v jsval list option option" where
  "findPoint h x y =
     (let sz = cellSize h; cx = toInt32 (x / sz); cy = toInt32 (y / sz)
      in findValues h cx cy [Num x, Num y])"

text \<open>
  \<open>removePoint\<close> returns \<open>undefined\<close> (the inner \<open>None\<close>) or the removed elements,
  with the index after the call.
\<close>

definition removePoint ::
  "'v SpatialHash \<Rightarrow> real \<Rightarrow> real \<Rightarrow> ('v jsval list option \<times> 'v SpatialHash) option" where
  "removePoint h x y =
     (let sz = cellSize h; cx = toInt32 (x / sz); cy = toInt32 (y / sz)
      in case findIndex h cx cy [Num x, Num y] of
           None \<Rightarrow> None
         | Some idx \<Rightarrow>
             if idx = - 1 then Some (None, h)
             else (let (ret, h') = removeAt h cx cy idx in Some (Some ret, h')))"

text \<open>
  The scan of one cell array by \<open>nearbyPoints\<close> (lines 368 to 377), from index \<open>i\<close>
  in steps of 3. With a NaN distance the comparison \<open>d2 <= r2\<close> is false.
\<close>

function nearby_scan ::
  "(real \<Rightarrow> real) \<Rightarrow> 'v jsval list \<Rightarrow> real \<Rightarrow> real \<Rightarrow> real \<Rightarrow> nat \<Rightarrow> 'v jsval list list" where
  "nearby_scan fl arr cx cy r2 i =
     (if i < length arr then
        (let px = nth_js arr i; py = nth_js arr (i + 1); pv = nth_js arr (i + 2)
         in (case (num_of px, num_of py) of
               (Some ax, Some ay) \<Rightarrow>
                 (let d2 = sqdist fl cx cy ax ay
                  in if d2 \<le> r2 then [[px, py, pv, Num d2]] else [])
             | _ \<Rightarrow> [])
            @ nearby_scan fl arr cx cy r2 (i + 3))
      else [])"
  by pat_completeness auto
termination
  by (relation "measure (\<lambda>(fl, arr, cx, cy, r2, i). length arr - i)") auto

declare nearby_scan.simps [simp del]

text \<open>
  \<open>nearbyPoints\<close>: the corner \<open>(cx - r, cy - r)\<close> of the box, its side \<open>r + r\<close> and the
  bound \<open>r * r\<close> are rounded results.
\<close>

definition nearbyPoints ::
  "(real \<Rightarrow> real) \<Rightarrow> 'v SpatialHash \<Rightarrow> real \<Rightarrow> real \<Rightarrow> real \<Rightarrow> 'v jsval list list" where
  "nearbyPoints fl h cx cy r =
     (let d = fl (r + r); r2 = fl (r * r)
      in concat (map (\<lambda>key. case map_js h key of
                                None \<Rightarrow> []
                              | Some arr \<Rightarrow> nearby_scan fl arr cx cy r2 0)
                     (cellsUnderExtent fl h (fl (cx - r)) (fl (cy - r)) d d)))"

text \<open>The scan of one cell array by \<open>pointsNearSegment\<close> (lines 402 to 411).\<close>

function near_segment_scan ::
  "'v jsval list \<Rightarrow> real \<Rightarrow> real \<Rightarrow> real \<Rightarrow> real \<Rightarrow> real \<Rightarrow> nat \<Rightarrow> 'v jsval list list" where
  "near_segment_scan arr x1 y1 x2 y2 eps2 i =
     (if i < length arr then
        (let px = nth_js arr i; py = nth_js arr (i + 1); pv = nth_js arr (i + 2)
         in (case (num_of px, num_of py) of
               (Some ax, Some ay) \<Rightarrow>
                 (let d2 = segPointDistSq x1 y1 x2 y2 ax ay
                  in if d2 \<le> eps2 then [[px, py, pv, Num d2]] else [])
             | _ \<Rightarrow> [])
            @ near_segment_scan arr x1 y1 x2 y2 eps2 (i + 3))
      else [])"
  by pat_completeness auto
termination
  by (relation "measure (\<lambda>(arr, x1, y1, x2, y2, eps2, i). length arr - i)") auto

declare near_segment_scan.simps [simp del]

definition pointsNearSegment ::
  "'v SpatialHash \<Rightarrow> real \<Rightarrow> real \<Rightarrow> real \<Rightarrow> real \<Rightarrow> real \<Rightarrow> 'v jsval list list" where
  "pointsNearSegment h x1 y1 x2 y2 eps =
     (let eps2 = eps * eps
      in concat (map (\<lambda>key. case map_js h key of
                                None \<Rightarrow> []
                              | Some arr \<Rightarrow> near_segment_scan arr x1 y1 x2 y2 eps2 0)
                     (cellsUnderSegment h x1 y1 x2 y2 eps)))"

section \<open>The segment index\<close>

definition SegmentHash :: "real \<Rightarrow> 'v SpatialHash" where
  "SegmentHash sz = SpatialHash 5 sz"

text \<open>
  \<open>addSegment\<close> and \<open>removeSegment\<close> consume the generator while they change the map.
  The generator reads only \<open>cellSize\<close>, which they leave alone, so its sequence is the
  one of the index before the call.
\<close>

definition addSegment ::
  "'v SpatialHash \<Rightarrow> real \<Rightarrow> real \<Rightarrow> real \<Rightarrow> real \<Rightarrow> 'v jsval \<Rightarrow> 'v SpatialHash" where
  "addSegment h x1 y1 x2 y2 val =
     foldl (\<lambda>g (cellX, cellY). addAt g cellX cellY [Num x1, Num y1, Num x2, Num y2, val])
       h (cellsUnderSegment h x1 y1 x2 y2 (default_eps h))"

definition findSegment ::
  "'v SpatialHash \<Rightarrow> real \<Rightarrow> real \<Rightarrow> real \<Rightarrow> real \<Rightarrow> 'v jsval list option option" where
  "findSegment h x1 y1 x2 y2 =
     (let sz = cellSize h; cx = toInt32 (x1 / sz); cy = toInt32 (y1 / sz)
      in findValues h cx cy [Num x1, Num y1, Num x2, Num y2])"

text \<open>
  The loop of \<open>removeSegment\<close> over the remaining cells, with the current \<open>val\<close>:
  \<open>Some (None, g)\<close> is the early \<open>return undefined\<close>, \<open>Some (Some val, g)\<close> the end of
  the loop, \<open>None\<close> a \<open>findIndex\<close> that does not return.
\<close>

fun removeSegment_loop ::
  "'v SpatialHash \<Rightarrow> 'v jsval list \<Rightarrow> cell list \<Rightarrow> 'v jsval \<Rightarrow>
     ('v jsval option \<times> 'v SpatialHash) option" where
  "removeSegment_loop g args [] val = Some (Some val, g)"
| "removeSegment_loop g args ((cellX, cellY) # cs) val =
     (case findIndex g cellX cellY args of
        None \<Rightarrow> None
      | Some idx \<Rightarrow>
          if idx = - 1 then Some (None, g)
          else (let (ret, g') = removeAt g cellX cellY idx
                in removeSegment_loop g' args cs (nth_js ret 4)))"

definition removeSegment ::
  "'v SpatialHash \<Rightarrow> real \<Rightarrow> real \<Rightarrow> real \<Rightarrow> real \<Rightarrow>
     ('v jsval list option \<times> 'v SpatialHash) option" where
  "removeSegment h x1 y1 x2 y2 =
     (case removeSegment_loop h [Num x1, Num y1, Num x2, Num y2]
             (cellsUnderSegment h x1 y1 x2 y2 (default_eps h)) Undefined of
        None \<Rightarrow> None
      | Some (None, g) \<Rightarrow> Some (None, g)
      | Some (Some val, g) \<Rightarrow> Some (Some [Num x1, Num y1, Num x2, Num y2, val], g))"

text \<open>
  \<open>findIntersects\<close>. \<open>prev\<close> is \<open>null\<close> (\<open>None\<close>) or the four coordinates of the last
  yielded record. A record with a coordinate slot that holds no number makes \<open>d\<close>,
  \<open>u\<close> and \<open>t\<close> NaN, every comparison of \<open>intersectSegments\<close> false and its result
  \<open>true\<close>.
\<close>

definition intersects_js ::
  "real \<Rightarrow> real \<Rightarrow> real \<Rightarrow> real \<Rightarrow> 'v jsval \<Rightarrow> 'v jsval \<Rightarrow> 'v jsval \<Rightarrow> 'v jsval \<Rightarrow> bool" where
  "intersects_js x1 y1 x2 y2 sx1 sy1 sx2 sy2 =
     (case (num_of sx1, num_of sy1, num_of sx2, num_of sy2) of
        (Some a, Some b, Some c, Some d) \<Rightarrow> intersectSegments x1 y1 x2 y2 a b c d
      | _ \<Rightarrow> True)"

function intersects_scan ::
  "'v jsval list \<Rightarrow> real \<Rightarrow> real \<Rightarrow> real \<Rightarrow> real \<Rightarrow> 'v jsval list option \<Rightarrow> nat \<Rightarrow>
     'v jsval list list \<times> 'v jsval list option" where
  "intersects_scan arr x1 y1 x2 y2 prev i =
     (if i < length arr then
        (let sx1 = nth_js arr i; sy1 = nth_js arr (i + 1);
             sx2 = nth_js arr (i + 2); sy2 = nth_js arr (i + 3);
             sv = nth_js arr (i + 4)
         in if prev = Some [sx1, sy1, sx2, sy2] then
              intersects_scan arr x1 y1 x2 y2 prev (i + 5)
            else if intersects_js x1 y1 x2 y2 sx1 sy1 sx2 sy2 then
              (let (ys, p) = intersects_scan arr x1 y1 x2 y2 (Some [sx1, sy1, sx2, sy2]) (i + 5)
               in ([sx1, sy1, sx2, sy2, sv] # ys, p))
            else intersects_scan arr x1 y1 x2 y2 prev (i + 5))
      else ([], prev))"
  by pat_completeness auto
termination
  by (relation "measure (\<lambda>(arr, x1, y1, x2, y2, prev, i). length arr - i)") auto

declare intersects_scan.simps [simp del]

text \<open>The loop over the cells, which carries \<open>prev\<close> from one cell to the next.\<close>

fun intersects_cells ::
  "'v SpatialHash \<Rightarrow> real \<Rightarrow> real \<Rightarrow> real \<Rightarrow> real \<Rightarrow> 'v jsval list option \<Rightarrow> cell list \<Rightarrow>
     'v jsval list list" where
  "intersects_cells h x1 y1 x2 y2 prev [] = []"
| "intersects_cells h x1 y1 x2 y2 prev (key # cs) =
     (case map_js h key of
        None \<Rightarrow> intersects_cells h x1 y1 x2 y2 prev cs
      | Some arr \<Rightarrow>
          (let (ys, p) = intersects_scan arr x1 y1 x2 y2 prev 0
           in ys @ intersects_cells h x1 y1 x2 y2 p cs))"

text \<open>The default of \<open>eps\<close> in \<open>findIntersects\<close> is 1.\<close>

definition findIntersects ::
  "'v SpatialHash \<Rightarrow> real \<Rightarrow> real \<Rightarrow> real \<Rightarrow> real \<Rightarrow> real \<Rightarrow> 'v jsval list list" where
  "findIntersects h x1 y1 x2 y2 eps =
     intersects_cells h x1 y1 x2 y2 None (cellsUnderSegment h x1 y1 x2 y2 eps)"

section \<open>The data model of the specification\<close>

text \<open>
  The invariant of the emitter of \<open>cellsUnderSegment\<close>: the yielded cells are the seen
  keys, without repetition.
\<close>

definition emitter_ok :: "emitter \<Rightarrow> bool" where
  "emitter_ok e = (fst e = set (snd e) \<and> distinct (snd e))"

text \<open>The array of a cell, empty for an absent key.\<close>

definition cell_list :: "'v SpatialHash \<Rightarrow> cell \<Rightarrow> 'v jsval list" where
  "cell_list h key = (case map_js h key of None \<Rightarrow> [] | Some arr \<Rightarrow> arr)"

text \<open>
  The records of a flat array with stride \<open>n\<close>: the slices of length \<open>n\<close> at the
  offsets \<open>0\<close>, \<open>n\<close>, \<open>2 * n\<close> and so on.
\<close>

definition records :: "nat \<Rightarrow> 'a list \<Rightarrow> 'a list list" where
  "records n arr = map (\<lambda>j. take n (drop (j * n) arr)) [0 ..< length arr div n]"

text \<open>
  The invariant of the grid index: no key is mapped to an empty array, and the length
  of every array is a multiple of the stride.
\<close>

definition stride_inv :: "'v SpatialHash \<Rightarrow> bool" where
  "stride_inv h =
     (\<forall>key arr. map_js h key = Some arr \<longrightarrow> arr \<noteq> [] \<and> numElements h dvd length arr)"

text \<open>
  A record matches the arguments of a lookup when its leading fields are the arguments;
  \<open>first_match\<close> is the number of records before the first one that matches (the
  number of all records when none does).
\<close>

definition matches :: "'a list \<Rightarrow> 'a list \<Rightarrow> bool" where
  "matches args rec = (take (length args) rec = args)"

definition first_match :: "'a list \<Rightarrow> 'a list list \<Rightarrow> nat" where
  "first_match args recs = length (takeWhile (\<lambda>r. \<not> matches args r) recs)"

text \<open>
  A cell has a match for the arguments when one of its records matches;
  \<open>remove_first\<close> takes the first matching record out of a list of records.
\<close>

definition has_match :: "'v SpatialHash \<Rightarrow> 'v jsval list \<Rightarrow> cell \<Rightarrow> bool" where
  "has_match h args key =
     (\<exists>r \<in> set (records (numElements h) (cell_list h key)). matches args r)"

definition remove_first :: "'a list \<Rightarrow> 'a list list \<Rightarrow> 'a list list" where
  "remove_first args recs =
     take (first_match args recs) recs @ drop (Suc (first_match args recs)) recs"

text \<open>The fifth field of the first matching record of a cell.\<close>

definition removed_value :: "'v SpatialHash \<Rightarrow> 'v jsval list \<Rightarrow> cell \<Rightarrow> 'v jsval" where
  "removed_value h args key =
     (let recs = records (numElements h) (cell_list h key)
      in nth_js (recs ! first_match args recs) 4)"

section \<open>The data model of the point index\<close>

text \<open>
  A record of a point index is well placed in a cell when it is \<open>[x, y, value]\<close> with
  numbers \<open>x\<close>, \<open>y\<close> whose cell is the cell. The invariant of a point index: stride 3,
  the invariant of the grid index, and every record well placed.
\<close>

fun point_record_ok :: "real \<Rightarrow> cell \<Rightarrow> 'v jsval list \<Rightarrow> bool" where
  "point_record_ok sz key [Num x, Num y, v] = (key = (toInt32 (x / sz), toInt32 (y / sz)))"
| "point_record_ok sz key _ = False"

definition point_inv :: "'v SpatialHash \<Rightarrow> bool" where
  "point_inv h =
     (numElements h = 3 \<and> stride_inv h \<and>
      (\<forall>key. \<forall>r \<in> set (records 3 (cell_list h key)). point_record_ok (cellSize h) key r))"

text \<open>The number of stored copies of a point record: those in the cell of the point.\<close>

definition point_copies :: "'v SpatialHash \<Rightarrow> real \<Rightarrow> real \<Rightarrow> 'v jsval \<Rightarrow> nat" where
  "point_copies h x y v =
     count_list
       (records 3 (cell_list h (toInt32 (x / cellSize h), toInt32 (y / cellSize h))))
       [Num x, Num y, v]"

text \<open>What the scan of \<open>nearbyPoints\<close> yields for one record.\<close>

definition nearby_rec ::
  "(real \<Rightarrow> real) \<Rightarrow> real \<Rightarrow> real \<Rightarrow> real \<Rightarrow> 'v jsval list \<Rightarrow> 'v jsval list list" where
  "nearby_rec fl cx cy r2 rec =
     (case (num_of (rec ! 0), num_of (rec ! 1)) of
        (Some ax, Some ay) \<Rightarrow>
          (let d2 = sqdist fl cx cy ax ay
           in if d2 \<le> r2 then [[rec ! 0, rec ! 1, rec ! 2, Num d2]] else [])
      | _ \<Rightarrow> [])"

text \<open>
  The squared Euclidean distance of two points, in the reals; the point \<open>(x, y)\<close> is
  within Euclidean distance \<open>r\<close> of \<open>(cx, cy)\<close>; and a quotient that ToInt32 truncates
  without wrapping around.
\<close>

definition dist2 :: "real \<Rightarrow> real \<Rightarrow> real \<Rightarrow> real \<Rightarrow> real" where
  "dist2 cx cy x y = (cx - x) * (cx - x) + (cy - y) * (cy - y)"

definition within_radius :: "real \<Rightarrow> real \<Rightarrow> real \<Rightarrow> real \<Rightarrow> real \<Rightarrow> bool" where
  "within_radius cx cy r x y = (sqrt (dist2 cx cy x y) \<le> r)"

definition in_range32 :: "real \<Rightarrow> bool" where
  "in_range32 v = (- (2 ^ 31) < v \<and> v < 2 ^ 31)"

text \<open>
  What is used of the rounding of the double arithmetic (IEEE 754 binary64, any rounding
  mode): it is monotone, and it leaves every number \<open>m / 2^k\<close> with \<open>|m| \<le> 2^53\<close> and
  \<open>k \<le> 1022\<close> as it is, these numbers being doubles.
\<close>

definition double_rounding :: "(real \<Rightarrow> real) \<Rightarrow> bool" where
  "double_rounding fl =
     (mono fl \<and>
      (\<forall>(m::int) (k::nat). \<bar>m\<bar> \<le> 2 ^ 53 \<and> k \<le> 1022 \<longrightarrow>
         fl (of_int m / 2 ^ k) = of_int m / 2 ^ k))"

text \<open>
  The numbers of the grid \<open>k\<close>: the multiples \<open>m / 2^k\<close> of \<open>1 / 2^k\<close> with \<open>|m| < 2^25\<close>.
  The differences, the squares and the sums of squares of such numbers are computed
  without rounding. In a point index on the grid all stored coordinates are such numbers.
\<close>

definition on_grid :: "nat \<Rightarrow> real \<Rightarrow> bool" where
  "on_grid k v = (of_int \<lfloor>v * 2 ^ k\<rfloor> = v * 2 ^ k \<and> \<bar>v * 2 ^ k\<bar> < 2 ^ 25)"

fun point_on_grid :: "nat \<Rightarrow> 'v jsval list \<Rightarrow> bool" where
  "point_on_grid k [Num x, Num y, v] = (on_grid k x \<and> on_grid k y)"
| "point_on_grid k _ = False"

definition grid_points :: "nat \<Rightarrow> 'v SpatialHash \<Rightarrow> bool" where
  "grid_points k h = (\<forall>key. \<forall>r \<in> set (records 3 (cell_list h key)). point_on_grid k r)"

section \<open>The data model of the segment index\<close>

text \<open>
  A record of a segment index is \<open>[x1, y1, x2, y2, value]\<close> with four numbers. The
  invariant of a segment index: stride 5, the invariant of the grid index, and every
  record of this form.
\<close>

fun segment_record_ok :: "'v jsval list \<Rightarrow> bool" where
  "segment_record_ok [Num a, Num b, Num c, Num d, v] = True"
| "segment_record_ok _ = False"

definition segment_inv :: "'v SpatialHash \<Rightarrow> bool" where
  "segment_inv h =
     (numElements h = 5 \<and> stride_inv h \<and>
      (\<forall>key. \<forall>r \<in> set (records 5 (cell_list h key)). segment_record_ok r))"



section \<open>The query methods as programs on the store\<close>

text \<open>
  For the question which methods change the index, the bodies of the nine query methods
  are written once more, statement by statement, as programs that pass the index along:
  every access to \<open>this\<close> or to a cell array is a step that takes the index and returns
  the value it reads together with the index after the step. The steps of the query
  bodies are the reads below. The writes of the source (\<open>this.map[key] = arr\<close>,
  \<open>arr.push\<close>, \<open>arr.splice\<close> and \<open>delete this.map[key]\<close>) are in \<open>addAt\<close> and
  \<open>removeAt\<close>, which the sections above model, and in no other method. A program that
  may not return gives \<open>None\<close>.
\<close>

text \<open>The reads \<open>this.cellSize\<close> and \<open>this.numElements\<close>.\<close>

definition get_cellSize :: "'v SpatialHash \<Rightarrow> real \<times> 'v SpatialHash" where
  "get_cellSize h = (cellSize h, h)"

definition get_numElements :: "'v SpatialHash \<Rightarrow> nat \<times> 'v SpatialHash" where
  "get_numElements h = (numElements h, h)"

text \<open>
  \<open>this.map[key]\<close>: \<open>undefined\<close> or the reference to the array of the cell. The array of
  a cell is referred to from its key only, and the reference is modelled by the key.
\<close>

definition get_cell :: "cell \<Rightarrow> 'v SpatialHash \<Rightarrow> cell option \<times> 'v SpatialHash" where
  "get_cell key h = (if map_js h key = None then None else Some key, h)"

text \<open>\<open>arr.length\<close>, \<open>arr[i]\<close> and \<open>arr.slice(i, i + n)\<close>, which makes a new array.\<close>

definition get_length :: "cell \<Rightarrow> 'v SpatialHash \<Rightarrow> nat \<times> 'v SpatialHash" where
  "get_length ref h = (length (cell_list h ref), h)"

definition get_elem :: "cell \<Rightarrow> nat \<Rightarrow> 'v SpatialHash \<Rightarrow> 'v jsval \<times> 'v SpatialHash" where
  "get_elem ref i h = (nth_js (cell_list h ref) i, h)"

definition get_slice ::
  "cell \<Rightarrow> nat \<Rightarrow> nat \<Rightarrow> 'v SpatialHash \<Rightarrow> 'v jsval list \<times> 'v SpatialHash" where
  "get_slice ref i n h = (take n (drop i (cell_list h ref)), h)"

text \<open>
  \<open>findSubArray\<close> (lines 9 to 25): the inner loop reads \<open>arr[i + j]\<close> for every
  argument it compares, the outer loop reads \<open>arr.length\<close> before every iteration.
\<close>

fun found_count_st ::
  "cell \<Rightarrow> nat \<Rightarrow> 'v jsval list \<Rightarrow> 'v SpatialHash \<Rightarrow> nat \<times> 'v SpatialHash" where
  "found_count_st ref i [] h = (0, h)"
| "found_count_st ref i (a # args) h =
     (let (e, h1) = get_elem ref i h
      in if a \<noteq> e then (0, h1)
         else (let (n, h2) = found_count_st ref (Suc i) args h1 in (Suc n, h2)))"

partial_function (option) findSubArray_from_st ::
  "cell \<Rightarrow> nat \<Rightarrow> 'v jsval list \<Rightarrow> nat \<Rightarrow> 'v SpatialHash \<Rightarrow> (int \<times> 'v SpatialHash) option" where
  "findSubArray_from_st ref stride args i h =
     (let (len, h1) = get_length ref h
      in if i < len then
           (let (found, h2) = found_count_st ref i args h1
            in if found = length args then Some (int i, h2)
               else findSubArray_from_st ref stride args (i + stride) h2)
         else Some (- 1, h1))"

definition findSubArray_st ::
  "cell \<Rightarrow> nat \<Rightarrow> 'v jsval list \<Rightarrow> 'v SpatialHash \<Rightarrow> (int \<times> 'v SpatialHash) option" where
  "findSubArray_st ref stride args h = findSubArray_from_st ref stride args 0 h"

text \<open>\<open>findIndex\<close> (lines 69 to 78) and \<open>findValues\<close> (lines 89 to 104).\<close>

definition findIndex_st ::
  "'v SpatialHash \<Rightarrow> int \<Rightarrow> int \<Rightarrow> 'v jsval list \<Rightarrow> (int \<times> 'v SpatialHash) option" where
  "findIndex_st h cellX cellY args =
     (let (arr, h1) = get_cell (cellX, cellY) h
      in case arr of
           None \<Rightarrow> Some (- 1, h1)
         | Some ref \<Rightarrow>
             (let (n, h2) = get_numElements h1 in findSubArray_st ref n args h2))"

definition findValues_st ::
  "'v SpatialHash \<Rightarrow> int \<Rightarrow> int \<Rightarrow> 'v jsval list \<Rightarrow>
     ('v jsval list option \<times> 'v SpatialHash) option" where
  "findValues_st h cellX cellY args =
     (let (arr, h1) = get_cell (cellX, cellY) h
      in case arr of
           None \<Rightarrow> Some (None, h1)
         | Some ref \<Rightarrow>
             (let (n, h2) = get_numElements h1
              in case findSubArray_st ref n args h2 of
                   None \<Rightarrow> None
                 | Some (idx, h3) \<Rightarrow>
                     if idx = - 1 then Some (None, h3)
                     else (let (n', h4) = get_numElements h3;
                               (ret, h5) = get_slice ref (nat idx) n' h4
                           in Some (Some ret, h5))))"

text \<open>\<open>findPoint\<close> (lines 319 to 325) and \<open>findSegment\<close> (lines 512 to 518).\<close>

definition findPoint_st ::
  "'v SpatialHash \<Rightarrow> real \<Rightarrow> real \<Rightarrow> ('v jsval list option \<times> 'v SpatialHash) option" where
  "findPoint_st h x y =
     (let (sz, h1) = get_cellSize h; cx = toInt32 (x / sz); cy = toInt32 (y / sz)
      in findValues_st h1 cx cy [Num x, Num y])"

definition findSegment_st ::
  "'v SpatialHash \<Rightarrow> real \<Rightarrow> real \<Rightarrow> real \<Rightarrow> real \<Rightarrow>
     ('v jsval list option \<times> 'v SpatialHash) option" where
  "findSegment_st h x1 y1 x2 y2 =
     (let (sz, h1) = get_cellSize h; cx = toInt32 (x1 / sz); cy = toInt32 (y1 / sz)
      in findValues_st h1 cx cy [Num x1, Num y1, Num x2, Num y2])"

text \<open>
  The two generators read \<open>this.cellSize\<close> when they start and work on their local
  variables from then on; the set \<open>seen\<close> of \<open>cellsUnderSegment\<close> is local to the call.
\<close>

definition cellsUnderExtent_st ::
  "(real \<Rightarrow> real) \<Rightarrow> 'v SpatialHash \<Rightarrow> real \<Rightarrow> real \<Rightarrow> real \<Rightarrow> real \<Rightarrow>
     cell list \<times> 'v SpatialHash" where
  "cellsUnderExtent_st fl h x y width height =
     (let (sz, h1) = get_cellSize h;
          startX = toInt32 (fl (x / sz));
          startY = toInt32 (fl (y / sz));
          endX = toInt32 (fl (fl (x + width) / sz)) + 1;
          endY = toInt32 (fl (fl (y + height) / sz)) + 1
      in (concat (map (\<lambda>cellY. map (\<lambda>cellX. (cellX, cellY)) [startX ..  endX - 1])
                      [startY .. endY - 1]), h1))"

definition cellsUnderSegment_st ::
  "'v SpatialHash \<Rightarrow> real \<Rightarrow> real \<Rightarrow> real \<Rightarrow> real \<Rightarrow> real \<Rightarrow> cell list \<times> 'v SpatialHash" where
  "cellsUnderSegment_st h x1 y1 x2 y2 eps =
     (let (sz, h1) = get_cellSize h;
          s = walk (walk_consts_of sz x1 y1 x2 y2 eps) (walk_init sz x1 y1);
          cellX = toInt32 (x2 / sz);
          cellY = toInt32 (y2 / sz);
          lft = x2 - of_int cellX * sz;
          rgt = of_int (cellX + 1) * sz - x2;
          top' = y2 - of_int cellY * sz;
          bot' = of_int (cellY + 1) * sz - y2
      in (snd (emitAround cellX cellY (Fin lft) (Fin rgt) (Fin top') (Fin bot') (Fin eps)
                 (w_emitter s)), h1))"

text \<open>
  \<open>nearbyPoints\<close> (lines 357 to 379): the loop over the cells reads \<open>this.map[key]\<close>,
  the loop over a cell array reads \<open>arr.length\<close> and three elements in every iteration,
  and yields a new array.
\<close>

function nearby_scan_st ::
  "(real \<Rightarrow> real) \<Rightarrow> cell \<Rightarrow> real \<Rightarrow> real \<Rightarrow> real \<Rightarrow> nat \<Rightarrow> 'v SpatialHash \<Rightarrow>
     'v jsval list list \<times> 'v SpatialHash" where
  "nearby_scan_st fl ref cx cy r2 i h =
     (let (len, h1) = get_length ref h
      in if i < len then
           (let (px, h2) = get_elem ref i h1;
                (py, h3) = get_elem ref (i + 1) h2;
                (pv, h4) = get_elem ref (i + 2) h3;
                ys = (case (num_of px, num_of py) of
                        (Some ax, Some ay) \<Rightarrow>
                          (let d2 = sqdist fl cx cy ax ay
                           in if d2 \<le> r2 then [[px, py, pv, Num d2]] else [])
                      | _ \<Rightarrow> []);
                (rest, h5) = nearby_scan_st fl ref cx cy r2 (i + 3) h4
            in (ys @ rest, h5))
         else ([], h1))"
  by pat_completeness auto
termination
  by (relation "measure (\<lambda>(fl, ref, cx, cy, r2, i, h). length (cell_list h ref) - i)")
    (auto simp: get_length_def get_elem_def)

declare nearby_scan_st.simps [simp del]

fun nearby_cells_st ::
  "(real \<Rightarrow> real) \<Rightarrow> real \<Rightarrow> real \<Rightarrow> real \<Rightarrow> cell list \<Rightarrow> 'v SpatialHash \<Rightarrow>
     'v jsval list list \<times> 'v SpatialHash" where
  "nearby_cells_st fl cx cy r2 [] h = ([], h)"
| "nearby_cells_st fl cx cy r2 (key # cs) h =
     (let (arr, h1) = get_cell key h
      in case arr of
           None \<Rightarrow> nearby_cells_st fl cx cy r2 cs h1
         | Some ref \<Rightarrow>
             (let (ys, h2) = nearby_scan_st fl ref cx cy r2 0 h1;
                  (rest, h3) = nearby_cells_st fl cx cy r2 cs h2
              in (ys @ rest, h3)))"

definition nearbyPoints_st ::
  "(real \<Rightarrow> real) \<Rightarrow> 'v SpatialHash \<Rightarrow> real \<Rightarrow> real \<Rightarrow> real \<Rightarrow>
     'v jsval list list \<times> 'v SpatialHash" where
  "nearbyPoints_st fl h cx cy r =
     (let d = fl (r + r); r2 = fl (r * r);
          (cells, h1) = cellsUnderExtent_st fl h (fl (cx - r)) (fl (cy - r)) d d
      in nearby_cells_st fl cx cy r2 cells h1)"

text \<open>\<open>pointsNearSegment\<close> (lines 392 to 413).\<close>

function near_segment_scan_st ::
  "cell \<Rightarrow> real \<Rightarrow> real \<Rightarrow> real \<Rightarrow> real \<Rightarrow> real \<Rightarrow> nat \<Rightarrow> 'v SpatialHash \<Rightarrow>
     'v jsval list list \<times> 'v SpatialHash" where
  "near_segment_scan_st ref x1 y1 x2 y2 eps2 i h =
     (let (len, h1) = get_length ref h
      in if i < len then
           (let (px, h2) = get_elem ref i h1;
                (py, h3) = get_elem ref (i + 1) h2;
                (pv, h4) = get_elem ref (i + 2) h3;
                ys = (case (num_of px, num_of py) of
                        (Some ax, Some ay) \<Rightarrow>
                          (let d2 = segPointDistSq x1 y1 x2 y2 ax ay
                           in if d2 \<le> eps2 then [[px, py, pv, Num d2]] else [])
                      | _ \<Rightarrow> []);
                (rest, h5) = near_segment_scan_st ref x1 y1 x2 y2 eps2 (i + 3) h4
            in (ys @ rest, h5))
         else ([], h1))"
  by pat_completeness auto
termination
  by (relation "measure (\<lambda>(ref, x1, y1, x2, y2, eps2, i, h). length (cell_list h ref) - i)")
    (auto simp: get_length_def get_elem_def)

declare near_segment_scan_st.simps [simp del]

fun near_segment_cells_st ::
  "real \<Rightarrow> real \<Rightarrow> real \<Rightarrow> real \<Rightarrow> real \<Rightarrow> cell list \<Rightarrow> 'v SpatialHash \<Rightarrow>
     'v jsval list list \<times> 'v SpatialHash" where
  "near_segment_cells_st x1 y1 x2 y2 eps2 [] h = ([], h)"
| "near_segment_cells_st x1 y1 x2 y2 eps2 (key # cs) h =
     (let (arr, h1) = get_cell key h
      in case arr of
           None \<Rightarrow> near_segment_cells_st x1 y1 x2 y2 eps2 cs h1
         | Some ref \<Rightarrow>
             (let (ys, h2) = near_segment_scan_st ref x1 y1 x2 y2 eps2 0 h1;
                  (rest, h3) = near_segment_cells_st x1 y1 x2 y2 eps2 cs h2
              in (ys @ rest, h3)))"

definition pointsNearSegment_st ::
  "'v SpatialHash \<Rightarrow> real \<Rightarrow> real \<Rightarrow> real \<Rightarrow> real \<Rightarrow> real \<Rightarrow>
     'v jsval list list \<times> 'v SpatialHash" where
  "pointsNearSegment_st h x1 y1 x2 y2 eps =
     (let eps2 = eps * eps;
          (cells, h1) = cellsUnderSegment_st h x1 y1 x2 y2 eps
      in near_segment_cells_st x1 y1 x2 y2 eps2 cells h1)"

text \<open>
  \<open>findIntersects\<close> (lines 556 to 583); \<open>prev\<close> is a local variable that holds a new
  array.
\<close>

function intersects_scan_st ::
  "cell \<Rightarrow> real \<Rightarrow> real \<Rightarrow> real \<Rightarrow> real \<Rightarrow> 'v jsval list option \<Rightarrow> nat \<Rightarrow> 'v SpatialHash \<Rightarrow>
     ('v jsval list list \<times> 'v jsval list option) \<times> 'v SpatialHash" where
  "intersects_scan_st ref x1 y1 x2 y2 prev i h =
     (let (len, h1) = get_length ref h
      in if i < len then
           (let (sx1, h2) = get_elem ref i h1;
                (sy1, h3) = get_elem ref (i + 1) h2;
                (sx2, h4) = get_elem ref (i + 2) h3;
                (sy2, h5) = get_elem ref (i + 3) h4;
                (sv, h6) = get_elem ref (i + 4) h5
            in if prev = Some [sx1, sy1, sx2, sy2] then
                 intersects_scan_st ref x1 y1 x2 y2 prev (i + 5) h6
               else if intersects_js x1 y1 x2 y2 sx1 sy1 sx2 sy2 then
                 (let ((ys, p), h7) =
                        intersects_scan_st ref x1 y1 x2 y2 (Some [sx1, sy1, sx2, sy2]) (i + 5) h6
                  in (([sx1, sy1, sx2, sy2, sv] # ys, p), h7))
               else intersects_scan_st ref x1 y1 x2 y2 prev (i + 5) h6)
         else (([], prev), h1))"
  by pat_completeness auto
termination
  by (relation "measure (\<lambda>(ref, x1, y1, x2, y2, prev, i, h). length (cell_list h ref) - i)")
    (auto simp: get_length_def get_elem_def)

declare intersects_scan_st.simps [simp del]

fun intersects_cells_st ::
  "real \<Rightarrow> real \<Rightarrow> real \<Rightarrow> real \<Rightarrow> 'v jsval list option \<Rightarrow> cell list \<Rightarrow> 'v SpatialHash \<Rightarrow>
     'v jsval list list \<times> 'v SpatialHash" where
  "intersects_cells_st x1 y1 x2 y2 prev [] h = ([], h)"
| "intersects_cells_st x1 y1 x2 y2 prev (key # cs) h =
     (let (arr, h1) = get_cell key h
      in case arr of
           None \<Rightarrow> intersects_cells_st x1 y1 x2 y2 prev cs h1
         | Some ref \<Rightarrow>
             (let ((ys, p), h2) = intersects_scan_st ref x1 y1 x2 y2 prev 0 h1;
                  (rest, h3) = intersects_cells_st x1 y1 x2 y2 p cs h2
              in (ys @ rest, h3)))"

definition findIntersects_st ::
  "'v SpatialHash \<Rightarrow> real \<Rightarrow> real \<Rightarrow> real \<Rightarrow> real \<Rightarrow> real \<Rightarrow>
     'v jsval list list \<times> 'v SpatialHash" where
  "findIntersects_st h x1 y1 x2 y2 eps =
     (let (cells, h1) = cellsUnderSegment_st h x1 y1 x2 y2 eps
      in intersects_cells_st x1 y1 x2 y2 None cells h1)"

section \<open>Calls of the public operations\<close>

text \<open>
  The public operations of the index, and the index that a call leaves behind once it
  has returned and its result sequence, if it yields one, has been consumed; \<open>None\<close>
  stands for a call that does not return. The six operations that change the map leave
  the index that their definitions compute; a query leaves the index in which its
  program on the store ends.
\<close>

datatype 'v operation =
    AddAt int int "'v jsval list"
  | RemoveAt int int int
  | AddPoint real real "'v jsval"
  | RemovePoint real real
  | AddSegment real real real real "'v jsval"
  | RemoveSegment real real real real
  | FindIndex int int "'v jsval list"
  | FindValues int int "'v jsval list"
  | FindPoint real real
  | FindSegment real real real real
  | NearbyPoints real real real
  | PointsNearSegment real real real real real
  | FindIntersects real real real real real
  | CellsUnderExtent real real real real
  | CellsUnderSegment real real real real real

fun is_query :: "'v operation \<Rightarrow> bool" where
  "is_query (AddAt cellX cellY args) = False"
| "is_query (RemoveAt cellX cellY idx) = False"
| "is_query (AddPoint x y v) = False"
| "is_query (RemovePoint x y) = False"
| "is_query (AddSegment x1 y1 x2 y2 v) = False"
| "is_query (RemoveSegment x1 y1 x2 y2) = False"
| "is_query _ = True"

fun call :: "(real \<Rightarrow> real) \<Rightarrow> 'v SpatialHash \<Rightarrow> 'v operation \<Rightarrow> 'v SpatialHash option" where
  "call fl h (AddAt cellX cellY args) = Some (addAt h cellX cellY args)"
| "call fl h (RemoveAt cellX cellY idx) = Some (snd (removeAt h cellX cellY idx))"
| "call fl h (AddPoint x y v) = Some (addPoint h x y v)"
| "call fl h (RemovePoint x y) = map_option snd (removePoint h x y)"
| "call fl h (AddSegment x1 y1 x2 y2 v) = Some (addSegment h x1 y1 x2 y2 v)"
| "call fl h (RemoveSegment x1 y1 x2 y2) = map_option snd (removeSegment h x1 y1 x2 y2)"
| "call fl h (FindIndex cellX cellY args) = map_option snd (findIndex_st h cellX cellY args)"
| "call fl h (FindValues cellX cellY args) = map_option snd (findValues_st h cellX cellY args)"
| "call fl h (FindPoint x y) = map_option snd (findPoint_st h x y)"
| "call fl h (FindSegment x1 y1 x2 y2) = map_option snd (findSegment_st h x1 y1 x2 y2)"
| "call fl h (NearbyPoints cx cy r) = Some (snd (nearbyPoints_st fl h cx cy r))"
| "call fl h (PointsNearSegment x1 y1 x2 y2 eps) =
     Some (snd (pointsNearSegment_st h x1 y1 x2 y2 eps))"
| "call fl h (FindIntersects x1 y1 x2 y2 eps) = Some (snd (findIntersects_st h x1 y1 x2 y2 eps))"
| "call fl h (CellsUnderExtent x y width height) =
     Some (snd (cellsUnderExtent_st fl h x y width height))"
| "call fl h (CellsUnderSegment x1 y1 x2 y2 eps) =
     Some (snd (cellsUnderSegment_st h x1 y1 x2 y2 eps))"

text \<open>A sequence of calls, one after the other.\<close>

fun calls :: "(real \<Rightarrow> real) \<Rightarrow> 'v SpatialHash \<Rightarrow> 'v operation list \<Rightarrow> 'v SpatialHash option" where
  "calls fl h [] = Some h"
| "calls fl h (c # cs) = (case call fl h c of None \<Rightarrow> None | Some h' \<Rightarrow> calls fl h' cs)"

section \<open>Evaluation of ToInt32\<close>

lemma toInt32_floor:
  "toInt32 v =
     (let t = (if v < 0 then - \<lfloor>- v\<rfloor> else \<lfloor>v\<rfloor>);
          m = t mod 2 ^ 32
      in if m \<ge> 2 ^ 31 then m - 2 ^ 32 else m)"
  by (simp add: toInt32_def ceiling_def)

section \<open>The emitter of cellsUnderSegment\<close>

lemma emit_pair: "emit c (seen, out) = (insert c seen, if c \<in> seen then out else out @ [c])"
  by (simp add: emit_def canEmit_def)

lemma fst_emit: "fst (emit c e) = insert c (fst e)"
  by (cases e) (simp add: emit_pair)

lemma snd_emit: "snd (emit c e) = (if c \<in> fst e then snd e else snd e @ [c])"
  by (cases e) (simp add: emit_pair)

text \<open>
  Every property of the emitter that \<open>emit\<close> preserves is preserved by the block of
  emissions, by the loop and by the whole call.
\<close>

lemma emitAround_preserves:
  assumes "P e0" and "\<And>c e. P e \<Longrightarrow> P (emit c e)"
  shows "P (emitAround cellX cellY lft rgt top' bot' eps e0)"
  unfolding emitAround_def Let_def by (simp add: assms)

lemma walk_body_emitter:
  "w_emitter (walk_body k s) =
     emitAround (w_cellX s) (w_cellY s)
       (jsub (w_x s) (Fin (of_int (w_cellX s) * k_sz k)))
       (jsub (Fin (of_int (w_cellX s + 1) * k_sz k)) (w_x s))
       (jsub (w_y s) (Fin (of_int (w_cellY s) * k_sz k)))
       (jsub (Fin (of_int (w_cellY s + 1) * k_sz k)) (w_y s))
       (k_eps k) (w_emitter s)"
  by (simp add: walk_body_def Let_def)

lemma walk_body_preserves:
  assumes "P (w_emitter s)" and "\<And>c e. P e \<Longrightarrow> P (emit c e)"
  shows "P (w_emitter (walk_body k s))"
  unfolding walk_body_emitter by (rule emitAround_preserves) (use assms in auto)

lemma walk_preserves:
  assumes "P (w_emitter s)" and "\<And>c e. P e \<Longrightarrow> P (emit c e)"
  shows "P (w_emitter (walk k s))"
  using assms(1)
proof (induction k s rule: walk.induct)
  case (1 k s)
  show ?case
  proof (cases "walk_cond k s")
    case True
    have "P (w_emitter (walk_body k s))"
      by (rule walk_body_preserves) (use "1.prems" assms(2) in auto)
    with "1.IH" True show ?thesis by (simp add: walk.simps [of k s])
  next
    case False
    with "1.prems" show ?thesis by (simp add: walk.simps [of k s])
  qed
qed

lemma emitter_ok_emit: "emitter_ok e \<Longrightarrow> emitter_ok (emit c e)"
  by (auto simp: emitter_ok_def fst_emit snd_emit)

lemma emitter_ok_init: "emitter_ok ({}, [])"
  by (simp add: emitter_ok_def)

lemma emitter_ok_walk: "emitter_ok (w_emitter s) \<Longrightarrow> emitter_ok (w_emitter (walk k s))"
  by (rule walk_preserves) (auto intro: emitter_ok_emit)

lemma emitter_ok_segment_walk: "emitter_ok (w_emitter (segment_walk h x1 y1 x2 y2 eps))"
  unfolding segment_walk_def
  by (rule emitter_ok_walk) (simp add: walk_init_def emitter_ok_init)

lemma mem_emit: "c \<in> set (snd e) \<Longrightarrow> c \<in> set (snd (emit d e))"
  by (simp add: snd_emit)

lemma emit_self: "emitter_ok e \<Longrightarrow> c \<in> set (snd (emit c e))"
  by (auto simp: emitter_ok_def snd_emit)

lemma emitAround_self:
  assumes "emitter_ok e0"
  shows "(cellX, cellY) \<in> set (snd (emitAround cellX cellY lft rgt top' bot' eps e0))"
proof -
  have ok: "\<And>c e. emitter_ok e \<Longrightarrow> emitter_ok (emit c e)"
    by (rule emitter_ok_emit)
  show ?thesis
    unfolding emitAround_def Let_def
    by (rule emit_self) (simp add: assms ok)
qed

lemma emitAround_mono:
  "c \<in> set (snd e0) \<Longrightarrow> c \<in> set (snd (emitAround cellX cellY lft rgt top' bot' eps e0))"
  by (rule emitAround_preserves) (auto intro: mem_emit)

lemma walk_mono: "c \<in> set (snd (w_emitter s)) \<Longrightarrow> c \<in> set (snd (w_emitter (walk k s)))"
  by (rule walk_preserves) (auto intro: mem_emit)

text \<open>The loop counter \<open>iter\<close> counts the executions of the body.\<close>

lemma walk_body_iter: "w_iter (walk_body k s) = w_iter s + 1"
  by (simp add: walk_body_def Let_def)

lemma walk_iter_count: "w_iter (walk k s) = w_iter s + int (walk_count k s)"
proof (induction k s rule: walk.induct)
  case (1 k s)
  show ?case
  proof (cases "walk_cond k s")
    case True
    with "1.IH" show ?thesis
      by (simp add: walk.simps [of k s] walk_count.simps [of k s] walk_body_iter)
  next
    case False
    then show ?thesis by (simp add: walk.simps [of k s] walk_count.simps [of k s])
  qed
qed

lemma walk_count_bound: "int (walk_count k s) \<le> max 0 (k_steps k + 1 - w_iter s)"
proof (induction k s rule: walk_count.induct)
  case (1 k s)
  show ?case
  proof (cases "walk_cond k s")
    case True
    then have "w_iter s \<le> k_steps k" by (simp add: walk_cond_def)
    with "1.IH" True show ?thesis
      by (simp add: walk_count.simps [of k s] walk_body_iter)
  next
    case False
    then show ?thesis by (simp add: walk_count.simps [of k s])
  qed
qed

text \<open>Each emission adds at most one cell, each block of emissions at most nine.\<close>

lemma length_emit: "length (snd (emit c e)) \<le> Suc (length (snd e))"
  by (simp add: snd_emit)

lemma length_when_emit: "length (snd (if b then emit c e else e)) \<le> Suc (length (snd e))"
  by (simp add: snd_emit)

lemma length_side:
  "length (snd (if l then
                  (let a = emit c1 e;
                       b = (if t then emit c2 a else a)
                   in (if u then emit c3 b else b))
                else e)) \<le> length (snd e) + 3"
proof -
  have a: "length (snd (emit c1 e)) \<le> length (snd e) + 1"
    using length_emit [of c1 e] by simp
  have b: "length (snd (if t then emit c2 (emit c1 e) else emit c1 e)) \<le> length (snd e) + 2"
    using length_when_emit [of t c2 "emit c1 e"] a by simp
  have "length (snd (if u then emit c3 (if t then emit c2 (emit c1 e) else emit c1 e)
                     else (if t then emit c2 (emit c1 e) else emit c1 e))) \<le> length (snd e) + 3"
    using length_when_emit [of u c3 "if t then emit c2 (emit c1 e) else emit c1 e"] b by simp
  then show ?thesis by (simp add: Let_def)
qed

lemma length_emitAround:
  "length (snd (emitAround cellX cellY lft rgt top' bot' eps e0)) \<le> length (snd e0) + 9"
proof -
  define e1 where "e1 = (if jle lft eps then
                  (let a = emit (cellX - 1, cellY) e0;
                       b = (if jle top' eps then emit (cellX - 1, cellY - 1) a else a)
                   in (if jle bot' eps then emit (cellX - 1, cellY + 1) b else b))
                else e0)"
  define e2 where "e2 = (if jle rgt eps then
                  (let a = emit (cellX + 1, cellY) e1;
                       b = (if jle top' eps then emit (cellX + 1, cellY - 1) a else a)
                   in (if jle bot' eps then emit (cellX + 1, cellY + 1) b else b))
                else e1)"
  define e3 where "e3 = (if jle top' eps then emit (cellX, cellY - 1) e2 else e2)"
  define e4 where "e4 = (if jle bot' eps then emit (cellX, cellY + 1) e3 else e3)"
  have eq: "emitAround cellX cellY lft rgt top' bot' eps e0 = emit (cellX, cellY) e4"
    by (simp only: emitAround_def e1_def e2_def e3_def e4_def Let_def)
  have l1: "length (snd e1) \<le> length (snd e0) + 3"
    unfolding e1_def by (rule length_side)
  have l2: "length (snd e2) \<le> length (snd e1) + 3"
    unfolding e2_def by (rule length_side)
  have l3: "length (snd e3) \<le> Suc (length (snd e2))"
    unfolding e3_def by (rule length_when_emit)
  have l4: "length (snd e4) \<le> Suc (length (snd e3))"
    unfolding e4_def by (rule length_when_emit)
  have l5: "length (snd (emit (cellX, cellY) e4)) \<le> Suc (length (snd e4))"
    by (rule length_emit)
  from l1 l2 l3 l4 l5 show ?thesis unfolding eq by linarith
qed

lemma length_walk:
  "length (snd (w_emitter (walk k s))) \<le> length (snd (w_emitter s)) + 9 * walk_count k s"
proof (induction k s rule: walk.induct)
  case (1 k s)
  show ?case
  proof (cases "walk_cond k s")
    case True
    have "length (snd (w_emitter (walk_body k s))) \<le> length (snd (w_emitter s)) + 9"
      unfolding walk_body_emitter by (rule length_emitAround)
    with "1.IH" True show ?thesis
      by (simp add: walk.simps [of k s] walk_count.simps [of k s])
  next
    case False
    then show ?thesis by (simp add: walk.simps [of k s])
  qed
qed

lemma k_steps_consts: "k_steps (walk_consts_of (cellSize h) x1 y1 x2 y2 eps) = segment_steps h x1 y1 x2 y2"
  by (simp add: walk_consts_of_def segment_steps_def Let_def)

lemma segment_steps_nonneg: "0 \<le> segment_steps h x1 y1 x2 y2"
  by (simp add: segment_steps_def Let_def)

lemma segment_walk_iter:
  "w_iter (segment_walk h x1 y1 x2 y2 eps) = int (segment_iterations h x1 y1 x2 y2 eps)"
  by (simp add: segment_walk_def segment_iterations_def walk_iter_count walk_init_def)

section \<open>Properties of cellsUnderSegment\<close>

lemma distinct_cellsUnderSegment: "distinct (cellsUnderSegment h x1 y1 x2 y2 eps)"
proof -
  have "emitter_ok (emitAround cellX cellY lft rgt top' bot' e
          (w_emitter (segment_walk h x1 y1 x2 y2 eps)))" for cellX cellY lft rgt top' bot' e
    by (rule emitAround_preserves) (auto intro: emitter_ok_emit emitter_ok_segment_walk)
  then show ?thesis
    by (simp add: cellsUnderSegment_def Let_def emitter_ok_def)
qed

text \<open>
  C6. For every segment and every \<open>eps\<close>, \<open>cellsUnderSegment\<close> yields no cell twice in
  one call, whether the cell is reached again by the walk or derived again as a
  neighbour, in the loop or in the pass at the end point.
\<close>

theorem cellsUnderSegment_distinct: "distinct (cellsUnderSegment h x1 y1 x2 y2 eps)"
  by (rule distinct_cellsUnderSegment)

text \<open>
  C7, as the code has it. \<open>cellsUnderSegment\<close> is a total function: the call returns
  for every input. Its loop is guarded by \<open>iter <= steps\<close>, where \<open>steps\<close> is the
  Manhattan distance in cells between the start cell and the end cell, so the body is
  executed at most \<open>steps + 1\<close> times (the final value of \<open>iter\<close> is that number of
  executions), and the call yields at most nine cells for each execution and nine more
  at the end point.
\<close>

theorem cellsUnderSegment_iterations:
  "int (segment_iterations h x1 y1 x2 y2 eps) \<le> segment_steps h x1 y1 x2 y2 + 1
   \<and> w_iter (segment_walk h x1 y1 x2 y2 eps) = int (segment_iterations h x1 y1 x2 y2 eps)
   \<and> length (cellsUnderSegment h x1 y1 x2 y2 eps)
       \<le> 9 * (segment_iterations h x1 y1 x2 y2 eps + 1)"
proof -
  let ?k = "walk_consts_of (cellSize h) x1 y1 x2 y2 eps"
  let ?s = "walk_init (cellSize h) x1 y1"
  have "int (walk_count ?k ?s) \<le> max 0 (k_steps ?k + 1 - w_iter ?s)"
    by (rule walk_count_bound)
  then have a: "int (segment_iterations h x1 y1 x2 y2 eps) \<le> segment_steps h x1 y1 x2 y2 + 1"
    using segment_steps_nonneg [of h x1 y1 x2 y2]
    by (simp add: segment_iterations_def k_steps_consts walk_init_def)
  have "length (snd (w_emitter (walk ?k ?s))) \<le> length (snd (w_emitter ?s)) + 9 * walk_count ?k ?s"
    by (rule length_walk)
  then have w: "length (snd (w_emitter (segment_walk h x1 y1 x2 y2 eps)))
                  \<le> 9 * segment_iterations h x1 y1 x2 y2 eps"
    by (simp add: segment_walk_def segment_iterations_def walk_init_def)
  have "length (snd (emitAround cellX cellY lft rgt top' bot' e
          (w_emitter (segment_walk h x1 y1 x2 y2 eps))))
        \<le> 9 * (segment_iterations h x1 y1 x2 y2 eps + 1)" for cellX cellY lft rgt top' bot' e
    using length_emitAround [of cellX cellY lft rgt top' bot' e
        "w_emitter (segment_walk h x1 y1 x2 y2 eps)"] w by simp
  then have c: "length (cellsUnderSegment h x1 y1 x2 y2 eps)
                  \<le> 9 * (segment_iterations h x1 y1 x2 y2 eps + 1)"
    unfolding cellsUnderSegment_def Let_def by blast
  from a c show ?thesis by (simp add: segment_walk_iter)
qed

text \<open>
  C7 as stated fails: for the segment from \<open>(-5, 5)\<close> to \<open>(-15, 25)\<close> with cell size 10
  the start cell is \<open>(0, 0)\<close>, the end cell \<open>(-1, 2)\<close>, the cap 3, and the loop body is
  executed 4 times.
\<close>

theorem cellsUnderSegment_iterations_counterexample:
  "segment_steps (SpatialHash 5 10 :: unit SpatialHash) (- 5) 5 (- 15) 25 = 3
   \<and> segment_iterations (SpatialHash 5 10 :: unit SpatialHash) (- 5) 5 (- 15) 25 1 = 4"
proof -
  have "w_iter (segment_walk (SpatialHash 5 10 :: unit SpatialHash) (- 5) 5 (- 15) 25 1) = 4"
    by (simp add: segment_walk_def walk_consts_of_def walk_init_def
        walk.simps walk_cond_def walk_body_def emitAround_def emit_pair toInt32_floor
        sign_def jdiv_def jsub_def Let_def SpatialHash_def)
  then have "segment_iterations (SpatialHash 5 10 :: unit SpatialHash) (- 5) 5 (- 15) 25 1 = 4"
    by (simp add: segment_walk_iter)
  moreover have "segment_steps (SpatialHash 5 10 :: unit SpatialHash) (- 5) 5 (- 15) 25 = 3"
    by (simp add: segment_steps_def toInt32_floor SpatialHash_def Let_def)
  ultimately show ?thesis by simp
qed

section \<open>Cell assignment of points\<close>

lemma toInt32_nonneg: "0 \<le> v \<Longrightarrow> v < 2 ^ 31 \<Longrightarrow> toInt32 v = \<lfloor>v\<rfloor>"
proof -
  assume a: "0 \<le> v" and b: "v < 2 ^ 31"
  have "0 \<le> \<lfloor>v\<rfloor>" using a by simp
  moreover have "\<lfloor>v\<rfloor> < 2 ^ 31" using b by (simp add: floor_less_iff)
  ultimately show ?thesis using a by (simp add: toInt32_def Let_def)
qed

lemma map_js_addAt:
  "map_js (addAt h cellX cellY args) = (map_js h)((cellX, cellY) \<mapsto> cell_list h (cellX, cellY) @ args)"
  by (simp add: addAt_def cell_list_def Let_def)

lemma consts_addAt:
  "numElements (addAt h cellX cellY args) = numElements h"
  "cellSize (addAt h cellX cellY args) = cellSize h"
  by (simp_all add: addAt_def Let_def)

text \<open>
  C4, as the code has it. \<open>addPoint(x, y, v)\<close> appends the record to the array of the
  one cell \<open>((x / cellSize) | 0, (y / cellSize) | 0)\<close> and changes no other cell. The
  cell coordinate is the quotient truncated towards zero (and wrapped to 32 bits); it is
  \<open>floor(x / cellSize)\<close> when the quotient is not negative and below \<open>2^31\<close>.
\<close>

theorem addPoint_cell:
  "map_js (addPoint h x y v) =
     (map_js h)((toInt32 (x / cellSize h), toInt32 (y / cellSize h)) \<mapsto>
        cell_list h (toInt32 (x / cellSize h), toInt32 (y / cellSize h)) @ [Num x, Num y, v])
   \<and> (\<forall>key. key \<noteq> (toInt32 (x / cellSize h), toInt32 (y / cellSize h)) \<longrightarrow>
          map_js (addPoint h x y v) key = map_js h key)
   \<and> (0 \<le> x / cellSize h \<and> x / cellSize h < 2 ^ 31 \<longrightarrow>
          toInt32 (x / cellSize h) = \<lfloor>x / cellSize h\<rfloor>)
   \<and> (0 \<le> y / cellSize h \<and> y / cellSize h < 2 ^ 31 \<longrightarrow>
          toInt32 (y / cellSize h) = \<lfloor>y / cellSize h\<rfloor>)"
  by (simp add: addPoint_def Let_def map_js_addAt toInt32_nonneg)

theorem addPoint_cell_witness:
  "map_js (addPoint (PointHash 10 :: unit SpatialHash) 12 14 Undefined) (1, 1)
     = Some [Num 12, Num 14, Undefined]
   \<and> map_js (addPoint (PointHash 10 :: unit SpatialHash) 12 14 Undefined) (0, 0) = None
   \<and> toInt32 (12 / 10) = \<lfloor>12 / 10 :: real\<rfloor>"
  using addPoint_cell [of "PointHash 10 :: unit SpatialHash" 12 14 Undefined]
  by (simp add: PointHash_def SpatialHash_def cell_list_def toInt32_floor)

text \<open>
  C4 as stated fails for negative coordinates: with cell size 10 the point \<open>(-5, -5)\<close>
  is stored in cell \<open>(0, 0)\<close> and not in cell \<open>(floor(-0.5), floor(-0.5)) = (-1, -1)\<close>.
\<close>

theorem addPoint_cell_counterexample:
  "map_js (addPoint (PointHash 10 :: unit SpatialHash) (- 5) (- 5) Undefined)
     (\<lfloor>- 5 / 10 :: real\<rfloor>, \<lfloor>- 5 / 10 :: real\<rfloor>) = None
   \<and> map_js (addPoint (PointHash 10 :: unit SpatialHash) (- 5) (- 5) Undefined) (0, 0)
     = Some [Num (- 5), Num (- 5), Undefined]"
  by (simp add: addPoint_def addAt_def Let_def PointHash_def SpatialHash_def toInt32_floor)

section \<open>findSubArray on arrays of whole records\<close>

lemma found_count_le: "found_count arr i args \<le> length args"
  by (induction args arbitrary: i) auto

lemma found_count_full:
  "i + length args \<le> length arr \<Longrightarrow>
     (found_count arr i args = length args) = (take (length args) (drop i arr) = args)"
proof (induction args arbitrary: i)
  case Nil
  then show ?case by simp
next
  case (Cons a args)
  then have i: "i < length arr" by simp
  then have d: "drop i arr = arr ! i # drop (Suc i) arr"
    by (simp add: Cons_nth_drop_Suc)
  from Cons.prems have "Suc i + length args \<le> length arr" by simp
  from Cons.IH [OF this] i show ?case
    by (auto simp: d nth_js_def)
qed

lemma length_concat_stride:
  "\<forall>r \<in> set recs. length r = n \<Longrightarrow> length (concat recs) = n * length recs"
  by (induction recs) auto

lemma findSubArray_from_concat:
  assumes "0 < n" and "length args \<le> n"
  shows "\<forall>r \<in> set pre \<union> set post. length r = n \<Longrightarrow>
     findSubArray_from (concat (pre @ post)) n args (n * length pre) =
       Some (if first_match args post = length post then - 1
             else int (n * (length pre + first_match args post)))"
proof (induction post arbitrary: pre)
  case Nil
  then have "length (concat pre) = n * length pre" by (simp add: length_concat_stride)
  then show ?case
    by (simp add: findSubArray_from.simps [of _ _ _ "n * length pre"] first_match_def)
next
  case (Cons r post)
  have lp: "length (concat pre) = n * length pre"
    using Cons.prems by (simp add: length_concat_stride)
  have lr: "length r = n" using Cons.prems by simp
  have lt: "n * length pre < length (concat (pre @ r # post))"
    using lp lr assms(1) by simp
  have "n * length pre + length args \<le> length (concat (pre @ r # post))"
    using lp lr assms(2) by simp
  then have fc: "(found_count (concat (pre @ r # post)) (n * length pre) args = length args)
      = matches args r"
    using lp lr assms(2) by (simp add: found_count_full matches_def)
  show ?case
  proof (cases "matches args r")
    case True
    then show ?thesis
      using lt fc
      by (simp add: findSubArray_from.simps [of _ _ _ "n * length pre"] first_match_def)
  next
    case False
    have "\<forall>r \<in> set (pre @ [r]) \<union> set post. length r = n" using Cons.prems by auto
    from Cons.IH [OF this] have
      "findSubArray_from (concat (pre @ r # post)) n args (n * length pre + n) =
         Some (if first_match args post = length post then - 1
               else int (n * (Suc (length pre) + first_match args post)))"
      by (simp add: algebra_simps)
    then show ?thesis
      using False lt fc
      by (simp add: findSubArray_from.simps [of _ _ _ "n * length pre"] first_match_def)
  qed
qed

lemma findSubArray_concat:
  assumes "0 < n" and "length args \<le> n" and "\<forall>r \<in> set recs. length r = n"
  shows "findSubArray (concat recs) n args =
       Some (if first_match args recs = length recs then - 1
             else int (n * first_match args recs))"
  using findSubArray_from_concat [OF assms(1,2), of "[]" recs] assms(3)
  by (simp add: findSubArray_def)

section \<open>Arrays of whole records\<close>

lemma take_drop_concat:
  "\<forall>r \<in> set recs. length r = n \<Longrightarrow>
     take (n * j) (concat recs) = concat (take j recs) \<and>
     drop (n * j) (concat recs) = concat (drop j recs)"
proof (induction recs arbitrary: j)
  case Nil
  then show ?case by simp
next
  case (Cons r recs)
  show ?case
  proof (cases j)
    case 0
    then show ?thesis by simp
  next
    case (Suc i)
    from Cons.prems have "\<forall>r \<in> set recs. length r = n" and "length r = n" by auto
    with Cons.IH [of i] Suc show ?thesis by (simp add: algebra_simps)
  qed
qed

lemma records_concat:
  assumes "0 < n" and "\<forall>r \<in> set recs. length r = n"
  shows "records n (concat recs) = recs"
proof -
  have len: "length (concat recs) div n = length recs"
    using assms length_concat_stride [of recs n] by simp
  have "take n (drop (j * n) (concat recs)) = recs ! j" if "j < length recs" for j
  proof -
    have "drop (n * j) (concat recs) = concat (drop j recs)"
      using take_drop_concat [OF assms(2)] by blast
    also have "drop j recs = recs ! j # drop (Suc j) recs"
      using that by (simp add: Cons_nth_drop_Suc)
    finally show ?thesis
      using assms(2) that by (simp add: mult.commute)
  qed
  then have "map (\<lambda>j. take n (drop (j * n) (concat recs))) [0 ..< length recs]
      = map (\<lambda>j. recs ! j) [0 ..< length recs]"
    by simp
  then show ?thesis by (simp add: records_def len map_nth)
qed

lemma stride_concat:
  assumes "0 < n"
  shows "n dvd length arr \<Longrightarrow> \<exists>recs. arr = concat recs \<and> (\<forall>r \<in> set recs. length r = n)"
proof (induction "length arr" arbitrary: arr rule: less_induct)
  case less
  show ?case
  proof (cases "arr = []")
    case True
    then have "arr = concat []" by simp
    then show ?thesis by (metis empty_iff empty_set)
  next
    case False
    with less.prems assms have ge: "n \<le> length arr"
      by (simp add: dvd_imp_le)
    then have "length (drop n arr) < length arr" using assms False by simp
    moreover have "n dvd length (drop n arr)" using less.prems ge by (simp add: dvd_diff_nat)
    ultimately obtain recs where r: "drop n arr = concat recs" "\<forall>r \<in> set recs. length r = n"
      using less.hyps by blast
    have "arr = concat (take n arr # recs)" using r(1) by (simp flip: r(1))
    moreover have "\<forall>r \<in> set (take n arr # recs). length r = n" using r(2) ge by simp
    ultimately show ?thesis by blast
  qed
qed

lemma stride_records:
  assumes "0 < n" and "n dvd length arr"
  shows "concat (records n arr) = arr" and "\<forall>r \<in> set (records n arr). length r = n"
proof -
  obtain recs where r: "arr = concat recs" "\<forall>r \<in> set recs. length r = n"
    using stride_concat [OF assms] by blast
  then have "records n arr = recs" using records_concat [OF assms(1) r(2)] by simp
  with r show "concat (records n arr) = arr" and "\<forall>r \<in> set (records n arr). length r = n"
    by simp_all
qed

lemma splice_nat:
  assumes "i \<le> length arr"
  shows "splice arr (int i) n =
     (take (min n (length arr - i)) (drop i arr),
      take i arr @ drop (i + min n (length arr - i)) arr)"
proof -
  have "\<not> int i < 0" by simp
  moreover have "nat (min (int i) (int (length arr))) = i"
    using assms by simp
  ultimately show ?thesis
    unfolding splice_def Let_def by (simp only: if_False)
qed

lemma splice_concat:
  assumes "\<forall>r \<in> set recs. length r = n" and "j < length recs"
  shows "splice (concat recs) (int (n * j)) n = (recs ! j, concat (take j recs @ drop (Suc j) recs))"
proof -
  have len: "length (concat recs) = n * length recs"
    using assms(1) by (rule length_concat_stride)
  have le: "n * j \<le> length (concat recs)" using assms(2) len by simp
  have "n * Suc j \<le> n * length recs"
    using assms(2) by (intro mult_le_mono2) simp
  then have "n * j + n \<le> n * length recs" by simp
  then have cnt: "min n (length (concat recs) - n * j) = n"
    using len by simp
  have d: "drop j recs = recs ! j # drop (Suc j) recs"
    using assms(2) by (simp add: Cons_nth_drop_Suc)
  have lj: "length (recs ! j) = n" using assms by simp
  have t1: "take n (drop (n * j) (concat recs)) = recs ! j"
    using take_drop_concat [OF assms(1), of j] d lj by simp
  have t2: "take (n * j) (concat recs) = concat (take j recs)"
    using take_drop_concat [OF assms(1), of j] by simp
  have t3: "drop (n * j + n) (concat recs) = concat (drop (Suc j) recs)"
    using take_drop_concat [OF assms(1), of "Suc j"] by (simp add: add.commute)
  show ?thesis
    unfolding splice_nat [OF le] cnt t1 t2 t3 by simp
qed

section \<open>The invariant of the grid index\<close>

lemma stride_invD:
  assumes "stride_inv h" and "map_js h key = Some arr" and "0 < numElements h"
  shows "\<exists>recs. arr = concat recs \<and> recs \<noteq> [] \<and> (\<forall>r \<in> set recs. length r = numElements h)"
proof -
  from assms(1,2) have ne: "arr \<noteq> []" and dv: "numElements h dvd length arr"
    unfolding stride_inv_def by blast+
  from stride_concat [OF assms(3) dv] obtain recs
    where r: "arr = concat recs" "\<forall>r \<in> set recs. length r = numElements h" by blast
  with ne have "recs \<noteq> []" by auto
  with r show ?thesis by blast
qed

lemma stride_inv_empty: "stride_inv (SpatialHash n sz)"
  by (simp add: stride_inv_def SpatialHash_def)

lemma stride_inv_addAt:
  assumes "stride_inv h" and "length args = numElements h" and "0 < numElements h"
  shows "stride_inv (addAt h cellX cellY args)"
proof -
  have "numElements h dvd length (cell_list h (cellX, cellY))"
    using assms(1) by (auto simp: stride_inv_def cell_list_def split: option.splits)
  then have "numElements h dvd length (cell_list h (cellX, cellY) @ args)"
    using assms(2) by simp
  moreover have "cell_list h (cellX, cellY) @ args \<noteq> []"
    using assms(2,3) by auto
  ultimately show ?thesis
    using assms(1) by (auto simp: stride_inv_def map_js_addAt consts_addAt)
qed

lemma consts_removeAt:
  "numElements (snd (removeAt h cellX cellY idx)) = numElements h"
  "cellSize (snd (removeAt h cellX cellY idx)) = cellSize h"
  by (simp_all add: removeAt_def Let_def split: option.splits prod.splits)

text \<open>Removing a whole record, at a record offset.\<close>

lemma removeAt_record:
  assumes "map_js h (cellX, cellY) = Some (concat recs)"
    and "\<forall>r \<in> set recs. length r = numElements h" and "j < length recs"
  shows "removeAt h cellX cellY (int (numElements h * j)) =
     (recs ! j,
      h\<lparr>map_js := (map_js h)((cellX, cellY) :=
           (if concat (take j recs @ drop (Suc j) recs) = [] then None
            else Some (concat (take j recs @ drop (Suc j) recs))))\<rparr>)"
  using assms(1) splice_concat [OF assms(2,3)]
  by (simp add: removeAt_def Let_def)

lemma splice_beyond:
  assumes "length arr \<le> i"
  shows "splice arr (int i) n = ([], arr)"
proof -
  have "\<not> int i < 0" by simp
  moreover have "nat (min (int i) (int (length arr))) = length arr"
    using assms by simp
  ultimately show ?thesis
    unfolding splice_def Let_def by (simp only: if_False) simp
qed

lemma stride_inv_removeAt:
  assumes "stride_inv h" and "0 \<le> idx" and "int (numElements h) dvd idx"
  shows "stride_inv (snd (removeAt h cellX cellY idx))"
proof (cases "map_js h (cellX, cellY)")
  case None
  then show ?thesis using assms(1) by (simp add: removeAt_def)
next
  case (Some arr)
  let ?n = "numElements h"
  show ?thesis
  proof (cases "?n = 0")
    case True
    with assms(1) Some show ?thesis by (auto simp: stride_inv_def)
  next
    case False
    then have n: "0 < ?n" by simp
    from stride_invD [OF assms(1) Some n] obtain recs
      where r: "arr = concat recs" "recs \<noteq> []" "\<forall>r \<in> set recs. length r = ?n" by blast
    from assms(3) obtain k where k: "idx = int ?n * k"
      by (auto simp: dvd_def)
    with assms(2) n have "0 \<le> k"
      by (simp add: zero_le_mult_iff)
    with k have j: "idx = int (?n * nat k)" by simp
    define j where "j = nat k"
    note j = j [folded j_def]
    show ?thesis
    proof (cases "j < length recs")
      case True
      let ?rest = "take j recs @ drop (Suc j) recs"
      have "\<forall>r \<in> set ?rest. length r = ?n"
        using r(3) by (auto dest: in_set_takeD in_set_dropD)
      then have "?n dvd length (concat ?rest)"
        by (simp only: length_concat_stride dvd_triv_left)
      then show ?thesis
        using assms(1) removeAt_record [of h cellX cellY recs j] Some r True
        by (auto simp: stride_inv_def j)
    next
      case False
      have len: "length arr = ?n * length recs"
        using r by (simp add: length_concat_stride)
      with False have "length arr \<le> ?n * j" by simp
      then have "splice arr idx ?n = ([], arr)"
        unfolding j by (rule splice_beyond)
      then show ?thesis
        using assms(1) Some r
        by (auto simp: removeAt_def Let_def stride_inv_def)
    qed
  qed
qed

section \<open>Operations preserve the invariant\<close>

lemma findIndex_records:
  assumes "stride_inv h" and "0 < numElements h" and "length args \<le> numElements h"
  shows "findIndex h cellX cellY args =
     Some (let recs = records (numElements h) (cell_list h (cellX, cellY))
           in if first_match args recs = length recs then - 1
              else int (numElements h * first_match args recs))"
proof (cases "map_js h (cellX, cellY)")
  case None
  then show ?thesis
    by (simp add: findIndex_def cell_list_def records_def first_match_def)
next
  case (Some arr)
  from stride_invD [OF assms(1) Some assms(2)] obtain recs
    where r: "arr = concat recs" "\<forall>r \<in> set recs. length r = numElements h" by blast
  have "records (numElements h) arr = recs"
    using records_concat [OF assms(2) r(2)] r(1) by simp
  then show ?thesis
    using Some r findSubArray_concat [OF assms(2,3) r(2)]
    by (simp add: findIndex_def cell_list_def Let_def)
qed

lemma findIndex_cases:
  assumes "stride_inv h" and "0 < numElements h" and "length args \<le> numElements h"
  shows "\<exists>idx. findIndex h cellX cellY args = Some idx \<and>
           (idx = - 1 \<or> (0 \<le> idx \<and> int (numElements h) dvd idx))"
  unfolding findIndex_records [OF assms] Let_def by simp

lemma stride_inv_removePoint:
  assumes "stride_inv h" and "numElements h = 3"
  shows "\<exists>ret h'. removePoint h x y = Some (ret, h') \<and> stride_inv h' \<and>
           numElements h' = numElements h \<and> cellSize h' = cellSize h"
proof -
  let ?cx = "toInt32 (x / cellSize h)" and ?cy = "toInt32 (y / cellSize h)"
  from assms(2) have n: "0 < numElements h" "length [Num x, Num y] \<le> numElements h"
    by simp_all
  from findIndex_cases [OF assms(1) n, of ?cx ?cy] obtain idx
    where i: "findIndex h ?cx ?cy [Num x, Num y] = Some idx"
      "idx = - 1 \<or> (0 \<le> idx \<and> int (numElements h) dvd idx)" by blast
  show ?thesis
  proof (cases "idx = - 1")
    case True
    with i(1) assms(1) show ?thesis by (simp add: removePoint_def Let_def)
  next
    case False
    with i(2) have "stride_inv (snd (removeAt h ?cx ?cy idx))"
      using assms(1) by (simp add: stride_inv_removeAt)
    with i(1) False show ?thesis
      by (simp add: removePoint_def Let_def consts_removeAt split: prod.splits)
        (metis consts_removeAt snd_conv)
  qed
qed

lemma stride_inv_addPoint:
  assumes "stride_inv h" and "numElements h = 3"
  shows "stride_inv (addPoint h x y v) \<and> numElements (addPoint h x y v) = numElements h
     \<and> cellSize (addPoint h x y v) = cellSize h"
  using assms by (simp add: addPoint_def Let_def stride_inv_addAt consts_addAt)

lemma foldl_addAt_inv:
  assumes "length args = numElements h" and "0 < numElements h"
  shows "stride_inv h \<Longrightarrow>
     stride_inv (foldl (\<lambda>g (cellX, cellY). addAt g cellX cellY args) h cs)
     \<and> numElements (foldl (\<lambda>g (cellX, cellY). addAt g cellX cellY args) h cs) = numElements h
     \<and> cellSize (foldl (\<lambda>g (cellX, cellY). addAt g cellX cellY args) h cs) = cellSize h"
  using assms
proof (induction cs arbitrary: h)
  case Nil
  then show ?case by simp
next
  case (Cons c cs)
  obtain cx cy where c: "c = (cx, cy)" by (cases c)
  have "stride_inv (addAt h cx cy args)"
    using Cons.prems by (simp add: stride_inv_addAt)
  from Cons.IH [OF this] Cons.prems(2,3) show ?case
    by (simp add: c consts_addAt)
qed

lemma stride_inv_addSegment:
  assumes "stride_inv h" and "numElements h = 5"
  shows "stride_inv (addSegment h x1 y1 x2 y2 v) \<and>
     numElements (addSegment h x1 y1 x2 y2 v) = numElements h \<and>
     cellSize (addSegment h x1 y1 x2 y2 v) = cellSize h"
  unfolding addSegment_def
  by (rule foldl_addAt_inv) (use assms in simp_all)

lemma removeSegment_loop_inv:
  assumes "length args \<le> numElements h" and "0 < numElements h"
  shows "stride_inv h \<Longrightarrow>
     \<exists>ret h'. removeSegment_loop h args cs val = Some (ret, h') \<and> stride_inv h' \<and>
        numElements h' = numElements h \<and> cellSize h' = cellSize h"
  using assms
proof (induction cs arbitrary: h val)
  case Nil
  then show ?case by simp
next
  case (Cons c cs)
  obtain cx cy where c: "c = (cx, cy)" by (cases c)
  from findIndex_cases [OF Cons.prems(1,3,2), of cx cy] obtain idx
    where i: "findIndex h cx cy args = Some idx"
      "idx = - 1 \<or> (0 \<le> idx \<and> int (numElements h) dvd idx)" by blast
  show ?case
  proof (cases "idx = - 1")
    case True
    with i(1) Cons.prems(1) show ?thesis by (simp add: c)
  next
    case False
    obtain ret g where rg: "removeAt h cx cy idx = (ret, g)" by (cases "removeAt h cx cy idx")
    have g: "stride_inv g" "numElements g = numElements h" "cellSize g = cellSize h"
      using stride_inv_removeAt [OF Cons.prems(1), of idx cx cy] i(2) False
        consts_removeAt [of h cx cy idx] rg by simp_all
    from Cons.IH [OF g(1), of "nth_js ret 4"] Cons.prems(2,3) g(2,3)
    show ?thesis using i(1) False rg by (simp add: c)
  qed
qed

lemma stride_inv_removeSegment:
  assumes "stride_inv h" and "numElements h = 5"
  shows "\<exists>ret h'. removeSegment h x1 y1 x2 y2 = Some (ret, h') \<and> stride_inv h' \<and>
           numElements h' = numElements h \<and> cellSize h' = cellSize h"
proof -
  have "length [Num x1, Num y1, Num x2, Num y2 :: 'a jsval] \<le> numElements h" "0 < numElements h"
    using assms(2) by simp_all
  from removeSegment_loop_inv [OF this assms(1), of
      "cellsUnderSegment h x1 y1 x2 y2 (default_eps h)" Undefined]
  show ?thesis
    by (auto simp: removeSegment_def split: option.splits)
qed

text \<open>
  C8. The invariant of the grid index (a present key has a non-empty array, whose length
  is a multiple of the stride) holds for the empty index and is preserved by every
  operation that changes the map: \<open>addAt\<close> with a record of the stride's length,
  \<open>removeAt\<close> at a record offset, \<open>addPoint\<close> and \<open>removePoint\<close> on a point index
  (stride 3), \<open>addSegment\<close> and \<open>removeSegment\<close> on a segment index (stride 5). The two
  removals return.
\<close>

theorem grid_invariant_preserved:
  assumes "stride_inv (g :: 'v SpatialHash)" and "0 < numElements g" and "length args = numElements g"
    and "0 \<le> idx" and "int (numElements g) dvd idx"
    and "stride_inv (p :: 'v SpatialHash)" and "numElements p = 3"
    and "stride_inv (s :: 'v SpatialHash)" and "numElements s = 5"
  shows "stride_inv (SpatialHash n sz :: 'v SpatialHash)
    \<and> stride_inv (addAt g cellX cellY args)
    \<and> stride_inv (snd (removeAt g cellX cellY idx))
    \<and> stride_inv (addPoint p x y v)
    \<and> (\<exists>ret p'. removePoint p x y = Some (ret, p') \<and> stride_inv p')
    \<and> stride_inv (addSegment s x1 y1 x2 y2 v)
    \<and> (\<exists>ret s'. removeSegment s x1 y1 x2 y2 = Some (ret, s') \<and> stride_inv s')"
proof -
  have "\<exists>ret p'. removePoint p x y = Some (ret, p') \<and> stride_inv p'"
    using stride_inv_removePoint [OF assms(6,7), of x y] by blast
  moreover have "\<exists>ret s'. removeSegment s x1 y1 x2 y2 = Some (ret, s') \<and> stride_inv s'"
    using stride_inv_removeSegment [OF assms(8,9), of x1 y1 x2 y2] by blast
  ultimately show ?thesis
    using stride_inv_empty [of n sz] stride_inv_addAt [OF assms(1,3,2)]
      stride_inv_removeAt [OF assms(1,4,5)] stride_inv_addPoint [OF assms(6,7)]
      stride_inv_addSegment [OF assms(8,9)]
    by simp
qed

theorem grid_invariant_preserved_witness:
  "stride_inv (addPoint (PointHash 10 :: unit SpatialHash) 12 14 Undefined)
   \<and> stride_inv (addSegment (SegmentHash 10 :: unit SpatialHash) 2 2 3 3 Undefined)
   \<and> stride_inv (addAt (addPoint (PointHash 10 :: unit SpatialHash) 12 14 Undefined) 1 1
        [Num 1, Num 2, Undefined])
   \<and> stride_inv (snd (removeAt (addPoint (PointHash 10 :: unit SpatialHash) 12 14 Undefined) 1 1 0))
   \<and> stride_inv (addPoint (addPoint (PointHash 10 :: unit SpatialHash) 12 14 Undefined) 12 14 Undefined)
   \<and> (\<exists>ret p'. removePoint (addPoint (PointHash 10 :: unit SpatialHash) 12 14 Undefined) 12 14
          = Some (ret, p') \<and> stride_inv p')
   \<and> stride_inv (addSegment (addSegment (SegmentHash 10 :: unit SpatialHash) 2 2 3 3 Undefined)
        2 2 3 3 Undefined)
   \<and> (\<exists>ret s'. removeSegment (addSegment (SegmentHash 10 :: unit SpatialHash) 2 2 3 3 Undefined)
          2 2 3 3 = Some (ret, s') \<and> stride_inv s')"
proof -
  let ?p = "addPoint (PointHash 10 :: unit SpatialHash) 12 14 Undefined"
  let ?s = "addSegment (SegmentHash 10 :: unit SpatialHash) 2 2 3 3 Undefined"
  have p: "stride_inv ?p" "numElements ?p = 3"
    using stride_inv_addPoint [of "PointHash 10 :: unit SpatialHash" 12 14 Undefined]
    by (simp_all add: PointHash_def stride_inv_empty) (simp_all add: SpatialHash_def)
  have s: "stride_inv ?s" "numElements ?s = 5"
    using stride_inv_addSegment [of "SegmentHash 10 :: unit SpatialHash" 2 2 3 3 Undefined]
    by (simp_all add: SegmentHash_def stride_inv_empty) (simp_all add: SpatialHash_def)
  have a: "0 < numElements ?p" "length [Num 1, Num 2, Undefined :: unit jsval] = numElements ?p"
    "(0::int) \<le> 0" "int (numElements ?p) dvd 0"
    using p(2) by simp_all
  from grid_invariant_preserved [OF p(1) a p s, where n = 3 and sz = 10 and cellX = 1 and cellY = 1
      and x = 12 and y = 14 and v = Undefined and ?x1.0 = 2 and ?y1.0 = 2 and ?x2.0 = 3
      and ?y2.0 = 3]
    p(1) s(1)
  show ?thesis
    by simp
qed

section \<open>Lookups on arrays of whole records\<close>

lemma first_match_Nil: "first_match args [] = 0"
  by (simp add: first_match_def)

lemma first_match_Cons:
  "first_match args (r # recs) = (if matches args r then 0 else Suc (first_match args recs))"
  by (simp add: first_match_def)

lemma first_match_le: "first_match args recs \<le> length recs"
  by (simp add: first_match_def length_takeWhile_le)

lemma first_match_all_iff:
  "(first_match args recs = length recs) = (\<forall>r \<in> set recs. \<not> matches args r)"
  by (induction recs) (auto simp: first_match_Nil first_match_Cons)

lemma first_match_lt_iff:
  "(first_match args recs < length recs) = (\<exists>r \<in> set recs. matches args r)"
  using first_match_le [of args recs] first_match_all_iff [of args recs] by auto

lemma first_match_matches:
  "first_match args recs < length recs \<Longrightarrow> matches args (recs ! first_match args recs)"
  unfolding first_match_def using nth_length_takeWhile [of "\<lambda>r. \<not> matches args r" recs] by simp

lemma first_match_append:
  "\<forall>r \<in> set recs. \<not> matches args r \<Longrightarrow>
     first_match args (recs @ rest) = length recs + first_match args rest"
  by (simp add: first_match_def takeWhile_append2)

lemma records_cell_list:
  assumes "stride_inv h" and "0 < numElements h"
  shows "concat (records (numElements h) (cell_list h key)) = cell_list h key"
    and "\<forall>r \<in> set (records (numElements h) (cell_list h key)). length r = numElements h"
proof -
  have "numElements h dvd length (cell_list h key)"
  proof (cases "map_js h key")
    case None
    then show ?thesis by (simp add: cell_list_def)
  next
    case (Some arr)
    with assms(1) have "numElements h dvd length arr" unfolding stride_inv_def by blast
    with Some show ?thesis by (simp add: cell_list_def)
  qed
  from stride_records [OF assms(2) this]
  show "concat (records (numElements h) (cell_list h key)) = cell_list h key"
    and "\<forall>r \<in> set (records (numElements h) (cell_list h key)). length r = numElements h"
    by simp_all
qed

lemma findValues_records:
  assumes "stride_inv h" and "0 < numElements h" and "length args \<le> numElements h"
  shows "findValues h cellX cellY args =
     Some (let recs = records (numElements h) (cell_list h (cellX, cellY))
           in if first_match args recs = length recs then None
              else Some (recs ! first_match args recs))"
proof (cases "map_js h (cellX, cellY)")
  case None
  then show ?thesis
    by (simp add: findValues_def cell_list_def records_def first_match_def)
next
  case (Some arr)
  let ?n = "numElements h"
  let ?recs = "records ?n (cell_list h (cellX, cellY))"
  let ?j = "first_match args ?recs"
  have arr: "cell_list h (cellX, cellY) = arr" using Some by (simp add: cell_list_def)
  note r = records_cell_list [OF assms(1,2), of "(cellX, cellY)"]
  have fs: "findSubArray arr ?n args =
      Some (if ?j = length ?recs then - 1 else int (?n * ?j))"
    using findSubArray_concat [OF assms(2,3) r(2)] r(1) arr by simp
  show ?thesis
  proof (cases "?j = length ?recs")
    case True
    with fs Some show ?thesis by (simp add: findValues_def Let_def)
  next
    case False
    then have lt: "?j < length ?recs" using first_match_le [of args ?recs] by simp
    have "drop (?n * ?j) (concat ?recs) = concat (drop ?j ?recs)"
      using take_drop_concat [OF r(2), of ?j] by simp
    also have "drop ?j ?recs = ?recs ! ?j # drop (Suc ?j) ?recs"
      using lt by (simp add: Cons_nth_drop_Suc)
    finally have "take ?n (drop (?n * ?j) arr) = ?recs ! ?j"
      using r lt arr by simp
    with fs Some False show ?thesis
      by (simp add: findValues_def Let_def del: of_nat_mult)
  qed
qed

section \<open>The start cell and the cells of addSegment\<close>

lemma walk_init_simps:
  "w_cellX (walk_init sz x1 y1) = toInt32 (x1 / sz)"
  "w_cellY (walk_init sz x1 y1) = toInt32 (y1 / sz)"
  "w_iter (walk_init sz x1 y1) = 0"
  "w_emitter (walk_init sz x1 y1) = ({}, [])"
  by (simp_all add: walk_init_def)

lemma walk_consts_end:
  "k_endCellX (walk_consts_of sz x1 y1 x2 y2 eps) = toInt32 (x2 / sz)"
  "k_endCellY (walk_consts_of sz x1 y1 x2 y2 eps) = toInt32 (y2 / sz)"
  by (simp_all add: walk_consts_of_def Let_def)

lemma start_cell_walk:
  "(toInt32 (x1 / cellSize h), toInt32 (y1 / cellSize h))
     \<in> set (snd (w_emitter (segment_walk h x1 y1 x2 y2 eps)))
   \<or> (toInt32 (x1 / cellSize h) = toInt32 (x2 / cellSize h) \<and>
      toInt32 (y1 / cellSize h) = toInt32 (y2 / cellSize h))"
proof -
  let ?k = "walk_consts_of (cellSize h) x1 y1 x2 y2 eps"
  let ?s = "walk_init (cellSize h) x1 y1"
  show ?thesis
  proof (cases "walk_cond ?k ?s")
    case True
    have "(w_cellX ?s, w_cellY ?s) \<in> set (snd (w_emitter (walk_body ?k ?s)))"
      unfolding walk_body_emitter
      by (rule emitAround_self) (simp add: walk_init_simps emitter_ok_init)
    then have "(w_cellX ?s, w_cellY ?s) \<in> set (snd (w_emitter (walk ?k (walk_body ?k ?s))))"
      by (rule walk_mono)
    with True show ?thesis
      by (simp add: segment_walk_def walk.simps [of ?k ?s] walk_init_simps)
  next
    case False
    have "0 \<le> k_steps ?k"
      using segment_steps_nonneg [of h x1 y1 x2 y2] by (simp add: k_steps_consts)
    with False show ?thesis
      by (simp add: walk_cond_def walk_init_simps walk_consts_end)
  qed
qed

lemma start_cell_mem:
  "(toInt32 (x1 / cellSize h), toInt32 (y1 / cellSize h))
     \<in> set (cellsUnderSegment h x1 y1 x2 y2 eps)"
proof -
  let ?e = "w_emitter (segment_walk h x1 y1 x2 y2 eps)"
  let ?c = "(toInt32 (x1 / cellSize h), toInt32 (y1 / cellSize h))"
  have a: "?c \<in> set (snd (emitAround cellX cellY lft rgt top' bot' e ?e))"
    if "?c \<in> set (snd ?e)" for cellX cellY lft rgt top' bot' e
    using that by (rule emitAround_mono)
  have b: "(cellX, cellY) \<in> set (snd (emitAround cellX cellY lft rgt top' bot' e ?e))"
    for cellX cellY lft rgt top' bot' e
    by (rule emitAround_self) (rule emitter_ok_segment_walk)
  from start_cell_walk [of x1 h y1 x2 y2 eps] show ?thesis
  proof
    assume "?c \<in> set (snd ?e)"
    then show ?thesis unfolding cellsUnderSegment_def Let_def by (rule a)
  next
    assume "toInt32 (x1 / cellSize h) = toInt32 (x2 / cellSize h) \<and>
      toInt32 (y1 / cellSize h) = toInt32 (y2 / cellSize h)"
    then show ?thesis unfolding cellsUnderSegment_def Let_def using b by simp
  qed
qed

lemma cell_list_addAt:
  "cell_list (addAt h cellX cellY args) key =
     (if key = (cellX, cellY) then cell_list h key @ args else cell_list h key)"
  by (simp add: cell_list_def map_js_addAt)

lemma cell_list_foldl_addAt:
  "distinct cs \<Longrightarrow>
     cell_list (foldl (\<lambda>g (cellX, cellY). addAt g cellX cellY args) h cs) key =
       (if key \<in> set cs then cell_list h key @ args else cell_list h key)"
proof (induction cs arbitrary: h)
  case Nil
  then show ?case by simp
next
  case (Cons c cs)
  obtain cx cy where c: "c = (cx, cy)" by (cases c)
  from Cons.prems have d: "distinct cs" and n: "c \<notin> set cs" by simp_all
  from Cons.IH [OF d, of "addAt h cx cy args"] n show ?case
    by (auto simp: c cell_list_addAt)
qed

lemma cell_list_addSegment:
  "cell_list (addSegment h x1 y1 x2 y2 v) key =
     (if key \<in> set (cellsUnderSegment h x1 y1 x2 y2 (default_eps h))
      then cell_list h key @ [Num x1, Num y1, Num x2, Num y2, v] else cell_list h key)"
  unfolding addSegment_def
  by (rule cell_list_foldl_addAt) (rule distinct_cellsUnderSegment)

section \<open>Round trip of additions and lookups\<close>

lemma records_append:
  assumes "0 < n" and "n dvd length arr" and "length new = n"
  shows "records n (arr @ new) = records n arr @ [new]"
proof -
  note r = stride_records [OF assms(1,2)]
  have "\<forall>r \<in> set (records n arr @ [new]). length r = n"
    using r(2) assms(3) by simp
  from records_concat [OF assms(1) this] r(1) show ?thesis by simp
qed

lemma find_after_append:
  assumes "stride_inv h'" and "0 < numElements h'" and "length args \<le> numElements h'"
    and "cell_list h' (cellX, cellY) = arr @ new" and "numElements h' dvd length arr"
    and "length new = numElements h'" and "matches args new"
  shows "\<exists>rec. findValues h' cellX cellY args = Some (Some rec) \<and>
           length rec = numElements h' \<and> matches args rec \<and>
           ((\<forall>r \<in> set (records (numElements h') arr). \<not> matches args r) \<longrightarrow> rec = new)"
proof -
  let ?n = "numElements h'"
  let ?recs = "records ?n arr @ [new]"
  let ?j = "first_match args ?recs"
  have recs: "records ?n (cell_list h' (cellX, cellY)) = ?recs"
    using records_append [OF assms(2,5,6)] assms(4) by simp
  have len: "\<forall>r \<in> set ?recs. length r = ?n"
    using stride_records(2) [OF assms(2,5)] assms(6) by simp
  have lt: "?j < length ?recs"
    unfolding first_match_lt_iff using assms(7) by simp
  then have fv: "findValues h' cellX cellY args = Some (Some (?recs ! ?j))"
    using findValues_records [OF assms(1,2,3), of cellX cellY] recs by (simp add: Let_def)
  have m: "matches args (?recs ! ?j)" using lt by (rule first_match_matches)
  have l: "length (?recs ! ?j) = ?n" using len lt by (metis nth_mem)
  have "?recs ! ?j = new" if "\<forall>r \<in> set (records ?n arr). \<not> matches args r"
    using first_match_append [OF that, of "[new]"] assms(7)
    by (simp add: first_match_Cons)
  with fv m l show ?thesis by blast
qed

lemma point_record_shape:
  assumes "length rec = 3" and "matches [a, b] rec"
  shows "\<exists>w. rec = [a, b, w]"
proof -
  from assms(1) obtain p q w where "rec = [p, q, w]"
    by (auto simp: length_Suc_conv numeral_3_eq_3)
  with assms(2) show ?thesis by (simp add: matches_def)
qed

lemma segment_record_shape:
  assumes "length rec = 5" and "matches [a, b, c, d] rec"
  shows "\<exists>w. rec = [a, b, c, d, w]"
proof -
  from assms(1) obtain p q r s w where "rec = [p, q, r, s, w]"
    by (auto simp: length_Suc_conv eval_nat_numeral)
  with assms(2) show ?thesis by (simp add: matches_def)
qed

lemma cell_list_dvd:
  assumes "stride_inv h"
  shows "numElements h dvd length (cell_list h key)"
proof (cases "map_js h key")
  case None
  then show ?thesis by (simp add: cell_list_def)
next
  case (Some arr)
  with assms have "numElements h dvd length arr" unfolding stride_inv_def by blast
  with Some show ?thesis by (simp add: cell_list_def)
qed

lemma findPoint_addPoint:
  assumes "stride_inv p" and "numElements p = 3"
  shows "\<exists>w. findPoint (addPoint p x y v) x y = Some (Some [Num x, Num y, w]) \<and>
     ((\<forall>r \<in> set (records 3 (cell_list p (toInt32 (x / cellSize p), toInt32 (y / cellSize p)))).
         \<not> matches [Num x, Num y] r) \<longrightarrow> w = v)"
proof -
  let ?h = "addPoint p x y v"
  let ?cx = "toInt32 (x / cellSize p)" and ?cy = "toInt32 (y / cellSize p)"
  note h = stride_inv_addPoint [OF assms, of x y v]
  have cl: "cell_list ?h (?cx, ?cy) = cell_list p (?cx, ?cy) @ [Num x, Num y, v]"
    by (simp add: addPoint_def Let_def cell_list_addAt)
  have "\<exists>rec. findValues ?h ?cx ?cy [Num x, Num y] = Some (Some rec) \<and>
           length rec = numElements ?h \<and> matches [Num x, Num y] rec \<and>
           ((\<forall>r \<in> set (records (numElements ?h) (cell_list p (?cx, ?cy))).
               \<not> matches [Num x, Num y] r) \<longrightarrow> rec = [Num x, Num y, v])"
    by (rule find_after_append [OF _ _ _ cl])
      (use h assms cell_list_dvd [OF assms(1)] in \<open>simp_all add: matches_def\<close>)
  then obtain rec where rec: "findValues ?h ?cx ?cy [Num x, Num y] = Some (Some rec)"
    "length rec = 3" "matches [Num x, Num y] rec"
    "(\<forall>r \<in> set (records 3 (cell_list p (?cx, ?cy))). \<not> matches [Num x, Num y] r)
       \<longrightarrow> rec = [Num x, Num y, v]"
    using h assms(2) by auto
  from point_record_shape [OF rec(2,3)] obtain w where w: "rec = [Num x, Num y, w]" by blast
  have "findPoint ?h x y = Some (Some [Num x, Num y, w])"
    using rec(1) w h by (simp add: findPoint_def Let_def)
  with rec(4) w show ?thesis by auto
qed

lemma findSegment_addSegment:
  assumes "stride_inv s" and "numElements s = 5"
  shows "\<exists>w. findSegment (addSegment s x1 y1 x2 y2 v) x1 y1 x2 y2
        = Some (Some [Num x1, Num y1, Num x2, Num y2, w]) \<and>
     ((\<forall>r \<in> set (records 5 (cell_list s (toInt32 (x1 / cellSize s), toInt32 (y1 / cellSize s)))).
         \<not> matches [Num x1, Num y1, Num x2, Num y2] r) \<longrightarrow> w = v)"
proof -
  let ?h = "addSegment s x1 y1 x2 y2 v"
  let ?cx = "toInt32 (x1 / cellSize s)" and ?cy = "toInt32 (y1 / cellSize s)"
  let ?args = "[Num x1, Num y1, Num x2, Num y2] :: 'a jsval list"
  note h = stride_inv_addSegment [OF assms, of x1 y1 x2 y2 v]
  have cl: "cell_list ?h (?cx, ?cy) = cell_list s (?cx, ?cy) @ [Num x1, Num y1, Num x2, Num y2, v]"
    using start_cell_mem [of x1 s y1 x2 y2 "default_eps s"]
    by (simp add: cell_list_addSegment)
  have "\<exists>rec. findValues ?h ?cx ?cy ?args = Some (Some rec) \<and>
           length rec = numElements ?h \<and> matches ?args rec \<and>
           ((\<forall>r \<in> set (records (numElements ?h) (cell_list s (?cx, ?cy))).
               \<not> matches ?args r) \<longrightarrow> rec = [Num x1, Num y1, Num x2, Num y2, v])"
    by (rule find_after_append [OF _ _ _ cl])
      (use h assms cell_list_dvd [OF assms(1)] in \<open>simp_all add: matches_def\<close>)
  then obtain rec where rec: "findValues ?h ?cx ?cy ?args = Some (Some rec)"
    "length rec = 5" "matches ?args rec"
    "(\<forall>r \<in> set (records 5 (cell_list s (?cx, ?cy))). \<not> matches ?args r)
       \<longrightarrow> rec = [Num x1, Num y1, Num x2, Num y2, v]"
    using h assms(2) by auto
  from segment_record_shape [OF rec(2,3)] obtain w
    where w: "rec = [Num x1, Num y1, Num x2, Num y2, w]" by blast
  have "findSegment ?h x1 y1 x2 y2 = Some (Some [Num x1, Num y1, Num x2, Num y2, w])"
    using rec(1) w h by (simp add: findSegment_def Let_def)
  with rec(4) w show ?thesis by auto
qed

text \<open>
  C5. On a point index that satisfies the invariant, \<open>findPoint(x, y)\<close> after
  \<open>addPoint(x, y, v)\<close> returns a stored record \<open>[x, y, w]\<close>, and \<open>w\<close> is \<open>v\<close> when no
  record that was in the cell of the point before has these coordinates. On a segment
  index, the cell of the start point is among the cells of \<open>cellsUnderSegment\<close>, and
  \<open>findSegment(x1, y1, x2, y2)\<close> after \<open>addSegment(x1, y1, x2, y2, u)\<close> returns a stored
  record \<open>[x1, y1, x2, y2, w]\<close>, with \<open>w = u\<close> when no record that was in the start cell
  before has these coordinates.
\<close>

theorem round_trip:
  assumes "stride_inv (p :: 'v SpatialHash)" and "numElements p = 3"
    and "stride_inv (s :: 'v SpatialHash)" and "numElements s = 5"
  shows "(\<exists>w. findPoint (addPoint p x y v) x y = Some (Some [Num x, Num y, w]) \<and>
            ((\<forall>r \<in> set (records 3 (cell_list p
                  (toInt32 (x / cellSize p), toInt32 (y / cellSize p)))).
                \<not> matches [Num x, Num y] r) \<longrightarrow> w = v))
    \<and> (toInt32 (x1 / cellSize s), toInt32 (y1 / cellSize s))
          \<in> set (cellsUnderSegment s x1 y1 x2 y2 (default_eps s))
    \<and> (\<exists>w. findSegment (addSegment s x1 y1 x2 y2 u) x1 y1 x2 y2
              = Some (Some [Num x1, Num y1, Num x2, Num y2, w]) \<and>
            ((\<forall>r \<in> set (records 5 (cell_list s
                  (toInt32 (x1 / cellSize s), toInt32 (y1 / cellSize s)))).
                \<not> matches [Num x1, Num y1, Num x2, Num y2] r) \<longrightarrow> w = u))"
  using findPoint_addPoint [OF assms(1,2), of x y v]
    start_cell_mem [of x1 s y1 x2 y2 "default_eps s"]
    findSegment_addSegment [OF assms(3,4), of x1 y1 x2 y2 u]
  by blast

theorem round_trip_witness:
  "stride_inv (PointHash 10 :: string SpatialHash)
   \<and> stride_inv (SegmentHash 10 :: string SpatialHash)
   \<and> findPoint (addPoint (PointHash 10) 12 14 (Val ''foo'')) 12 14
       = Some (Some [Num 12, Num 14, Val ''foo''])
   \<and> (0, 0) \<in> set (cellsUnderSegment (SegmentHash 10 :: string SpatialHash) 7 7 9 28 5)
   \<and> findSegment (addSegment (SegmentHash 10) 7 7 9 28 (Val ''foo'')) 7 7 9 28
       = Some (Some [Num 7, Num 7, Num 9, Num 28, Val ''foo''])"
proof -
  let ?p = "PointHash 10 :: string SpatialHash"
  let ?s = "SegmentHash 10 :: string SpatialHash"
  have p: "stride_inv ?p" "numElements ?p = 3"
    by (simp_all add: PointHash_def stride_inv_empty) (simp add: SpatialHash_def)
  have s: "stride_inv ?s" "numElements ?s = 5"
    by (simp_all add: SegmentHash_def stride_inv_empty) (simp add: SpatialHash_def)
  have e: "cell_list ?p key = []" "cell_list ?s key = []" for key
    by (simp_all add: cell_list_def PointHash_def SegmentHash_def SpatialHash_def)
  have c: "cellSize ?s = 10" "default_eps ?s = 5"
    by (simp_all add: default_eps_def SegmentHash_def SpatialHash_def)
  from round_trip [OF p s, of 12 14 "Val ''foo''" 7 7 9 28 "Val ''foo''"] p(1) s(1)
  show ?thesis
    by (simp add: e c records_def toInt32_floor)
qed

section \<open>Removal of a segment\<close>

lemma has_match_first:
  "has_match h args key =
     (first_match args (records (numElements h) (cell_list h key))
        < length (records (numElements h) (cell_list h key)))"
  by (simp add: has_match_def first_match_lt_iff)

lemma cell_list_upd:
  "cell_list (h\<lparr>map_js := (map_js h)(key := (if arr = [] then None else Some arr))\<rparr>) key' =
     (if key' = key then arr else cell_list h key')"
  by (simp add: cell_list_def)

text \<open>One step of \<open>removeSegment\<close> in a cell that has a match.\<close>

lemma remove_step:
  assumes "stride_inv g" and "0 < numElements g" and "length args \<le> numElements g"
    and "has_match g args (cellX, cellY)"
  defines "recs \<equiv> records (numElements g) (cell_list g (cellX, cellY))"
  shows "\<exists>idx g'. findIndex g cellX cellY args = Some idx \<and> idx \<noteq> - 1 \<and>
      removeAt g cellX cellY idx = (recs ! first_match args recs, g') \<and>
      stride_inv g' \<and> numElements g' = numElements g \<and> cellSize g' = cellSize g \<and>
      (\<forall>key. cell_list g' key =
         (if key = (cellX, cellY) then concat (remove_first args recs) else cell_list g key))"
proof -
  let ?n = "numElements g"
  let ?j = "first_match args recs"
  have lt: "?j < length recs"
    using assms(4) by (simp add: has_match_first recs_def)
  note r = records_cell_list [OF assms(1,2), of "(cellX, cellY)", folded recs_def]
  have "length (concat recs) = ?n * length recs"
    using r(2) by (rule length_concat_stride)
  moreover have "0 < length recs" using lt by linarith
  ultimately have "0 < length (cell_list g (cellX, cellY))"
    using assms(2) r(1) by simp
  then have "cell_list g (cellX, cellY) \<noteq> []" by simp
  then have m: "map_js g (cellX, cellY) = Some (concat recs)"
    using r(1) by (auto simp: cell_list_def split: option.splits)
  have fi: "findIndex g cellX cellY args = Some (int (?n * ?j))"
    using findIndex_records [OF assms(1,2,3), of cellX cellY] lt
    by (simp add: Let_def recs_def)
  note ra = removeAt_record [OF m r(2) lt]
  let ?g = "snd (removeAt g cellX cellY (int (?n * ?j)))"
  have inv: "stride_inv ?g"
    by (rule stride_inv_removeAt [OF assms(1)]) simp_all
  have cl: "cell_list ?g key =
      (if key = (cellX, cellY) then concat (remove_first args recs) else cell_list g key)" for key
    unfolding ra snd_conv remove_first_def by (rule cell_list_upd)
  have "removeAt g cellX cellY (int (?n * ?j)) = (recs ! ?j, ?g)"
    using ra by simp
  moreover have "(0::int) \<le> int (?n * ?j)" by (rule of_nat_0_le_iff)
  then have "int (?n * ?j) \<noteq> - 1" by linarith
  ultimately show ?thesis
    using fi inv cl consts_removeAt [of g cellX cellY "int (?n * ?j)"] by blast
qed

lemma has_match_cong:
  "numElements g' = numElements g \<Longrightarrow> cell_list g' key = cell_list g key \<Longrightarrow>
     has_match g' args key = has_match g args key"
  by (simp add: has_match_def)

lemma removeSegment_loop_spec:
  "stride_inv g \<Longrightarrow> 0 < numElements g \<Longrightarrow> length args \<le> numElements g \<Longrightarrow> distinct cs \<Longrightarrow>
   \<exists>ret g'. removeSegment_loop g args cs val = Some (ret, g') \<and>
     (\<forall>key. cell_list g' key =
        (if key \<in> set (takeWhile (has_match g args) cs)
         then concat (remove_first args (records (numElements g) (cell_list g key)))
         else cell_list g key)) \<and>
     ret = (if \<forall>c \<in> set cs. has_match g args c
            then Some (if cs = [] then val else removed_value g args (last cs))
            else None)"
proof (induction cs arbitrary: g val)
  case Nil
  then show ?case by simp
next
  case (Cons c cs)
  obtain cx cy where c: "c = (cx, cy)" by (cases c)
  let ?n = "numElements g"
  show ?case
  proof (cases "has_match g args c")
    case False
    then have "first_match args (records ?n (cell_list g c)) = length (records ?n (cell_list g c))"
      using first_match_le [of args "records ?n (cell_list g c)"] by (simp add: has_match_first)
    then have "findIndex g cx cy args = Some (- 1)"
      using findIndex_records [OF Cons.prems(1,2,3), of cx cy] by (simp add: c Let_def)
    with False show ?thesis by (simp add: c)
  next
    case True
    let ?recs = "records ?n (cell_list g c)"
    from remove_step [OF Cons.prems(1,2,3) True [unfolded c]] obtain idx g1 where
      s: "findIndex g cx cy args = Some idx" "idx \<noteq> - 1"
         "removeAt g cx cy idx = (?recs ! first_match args ?recs, g1)"
         "stride_inv g1" "numElements g1 = ?n"
         "\<And>key. cell_list g1 key =
            (if key = c then concat (remove_first args ?recs) else cell_list g key)"
      unfolding c by blast
    let ?val = "nth_js (?recs ! first_match args ?recs) 4"
    have step: "removeSegment_loop g args (c # cs) val = removeSegment_loop g1 args cs ?val"
      using s(1,2,3) by (simp add: c)
    from Cons.prems(4) have d: "distinct cs" and nc: "c \<notin> set cs" by simp_all
    have same: "cell_list g1 key = cell_list g key" if "key \<in> set cs" for key
      using that nc s(6) [of key] by auto
    have hm: "has_match g1 args key = has_match g args key" if "key \<in> set cs" for key
      using has_match_cong [OF s(5) same [OF that]] .
    have tw: "takeWhile (has_match g1 args) cs = takeWhile (has_match g args) cs"
      by (rule takeWhile_cong) (simp_all add: hm)
    have all: "(\<forall>k \<in> set cs. has_match g1 args k) = (\<forall>k \<in> set cs. has_match g args k)"
      using hm by blast
    have rv: "removed_value g1 args (last cs) = removed_value g args (last cs)" if "cs \<noteq> []"
      using same [of "last cs"] that s(5) by (simp add: removed_value_def)
    from Cons.IH [OF s(4) _ _ d, of ?val] Cons.prems(2,3) s(5)
    obtain ret g' where
      r: "removeSegment_loop g1 args cs ?val = Some (ret, g')"
         "\<And>key. cell_list g' key =
            (if key \<in> set (takeWhile (has_match g1 args) cs)
             then concat (remove_first args (records ?n (cell_list g1 key)))
             else cell_list g1 key)"
         "ret = (if \<forall>k \<in> set cs. has_match g1 args k
                 then Some (if cs = [] then ?val else removed_value g1 args (last cs))
                 else None)"
      by auto
    have cl: "cell_list g' key =
        (if key \<in> set (takeWhile (has_match g args) (c # cs))
         then concat (remove_first args (records ?n (cell_list g key)))
         else cell_list g key)" for key
    proof (cases "key \<in> set (takeWhile (has_match g args) cs)")
      case True
      then have "key \<in> set cs" by (rule set_takeWhileD [THEN conjunct1])
      with True r(2) [of key] same [of key] \<open>has_match g args c\<close> show ?thesis
        by (simp add: tw)
    next
      case False
      with r(2) [of key] s(6) [of key] \<open>has_match g args c\<close> show ?thesis
        by (simp add: tw)
    qed
    have rt: "ret = (if \<forall>k \<in> set (c # cs). has_match g args k
            then Some (if c # cs = [] then val else removed_value g args (last (c # cs)))
            else None)"
      using r(3) True rv by (auto simp: all removed_value_def Let_def)
    show ?thesis
    proof (intro exI conjI allI)
      show "removeSegment_loop g args (c # cs) val = Some (ret, g')"
        using step r(1) by simp
      show "cell_list g' key =
        (if key \<in> set (takeWhile (has_match g args) (c # cs))
         then concat (remove_first args (records ?n (cell_list g key)))
         else cell_list g key)" for key
        by (rule cl)
      show "ret = (if \<forall>k \<in> set (c # cs). has_match g args k
            then Some (if c # cs = [] then val else removed_value g args (last (c # cs)))
            else None)"
        by (rule rt)
    qed
  qed
qed

lemma cellsUnderSegment_cellSize:
  "cellSize h' = cellSize h \<Longrightarrow>
     cellsUnderSegment h' x1 y1 x2 y2 eps = cellsUnderSegment h x1 y1 x2 y2 eps"
  by (simp add: cellsUnderSegment_def segment_walk_def)

lemmas segment_eval =
  cellsUnderSegment_def segment_walk_def walk_consts_of_def walk_init_def walk.simps
  walk_cond_def walk_body_def emitAround_def emit_pair toInt32_floor sign_def jdiv_def
  jsub_def inf_times_def Let_def

lemma removeSegment_cases:
  fixes s :: "'v SpatialHash" and x1 y1 x2 y2 :: real
  assumes "stride_inv s" and "numElements s = 5"
  defines "cells \<equiv> cellsUnderSegment s x1 y1 x2 y2 (default_eps s)"
    and "args \<equiv> [Num x1, Num y1, Num x2, Num y2]"
  shows "\<exists>ret s'. removeSegment s x1 y1 x2 y2 = Some (ret, s') \<and> stride_inv s' \<and>
     (\<forall>key. cell_list s' key =
        (if key \<in> set (takeWhile (has_match s args) cells)
         then concat (remove_first args (records 5 (cell_list s key)))
         else cell_list s key)) \<and>
     ret = (if \<forall>c \<in> set cells. has_match s args c
            then Some (records 5 (cell_list s (last cells)) !
                         first_match args (records 5 (cell_list s (last cells))))
            else None) \<and>
     ((\<forall>c \<in> set cells. has_match s args c) \<longrightarrow>
        (\<exists>w. ret = Some [Num x1, Num y1, Num x2, Num y2, w]))"
proof -
  have n: "0 < numElements s" "length args \<le> numElements s"
    using assms(2) by (simp_all add: args_def)
  have d: "distinct cells" unfolding cells_def by (rule distinct_cellsUnderSegment)
  have ne: "cells \<noteq> []"
    using start_cell_mem [of x1 s y1 x2 y2 "default_eps s"] unfolding cells_def by auto
  from removeSegment_loop_spec [OF assms(1) n d, of Undefined]
  obtain r g where
    l: "removeSegment_loop s args cells Undefined = Some (r, g)"
       "\<And>key. cell_list g key =
          (if key \<in> set (takeWhile (has_match s args) cells)
           then concat (remove_first args (records 5 (cell_list s key)))
           else cell_list s key)"
       "r = (if \<forall>c \<in> set cells. has_match s args c
             then Some (removed_value s args (last cells)) else None)"
    using ne assms(2) by auto
  from stride_inv_removeSegment [OF assms(1,2), of x1 y1 x2 y2]
  obtain ret s' where rs: "removeSegment s x1 y1 x2 y2 = Some (ret, s')" "stride_inv s'"
    by blast
  have rsd: "removeSegment s x1 y1 x2 y2 =
      (case r of None \<Rightarrow> Some (None, g)
       | Some val \<Rightarrow> Some (Some [Num x1, Num y1, Num x2, Num y2, val], g))"
    unfolding removeSegment_def using l(1) [unfolded cells_def args_def]
    by (simp split: option.splits)
  show ?thesis
  proof (cases "\<forall>c \<in> set cells. has_match s args c")
    case False
    then have "r = None" using l(3) by simp
    with rsd rs(1) have "ret = None" "s' = g" by simp_all
    with False rs l(2) show ?thesis by simp
  next
    case True
    let ?recs = "records 5 (cell_list s (last cells))"
    let ?rec = "?recs ! first_match args ?recs"
    have "last cells \<in> set cells" using ne by simp
    with True have hm: "has_match s args (last cells)" by blast
    then have lt: "first_match args ?recs < length ?recs"
      using assms(2) by (simp add: has_match_first)
    then have m: "matches args ?rec" by (rule first_match_matches)
    have "\<forall>r \<in> set ?recs. length r = 5"
      using records_cell_list(2) [OF assms(1) n(1), of "last cells"] assms(2) by simp
    with lt have len: "length ?rec = 5" by (metis nth_mem)
    have "\<exists>w. ?rec = [Num x1, Num y1, Num x2, Num y2, w]"
      by (rule segment_record_shape) (use len m in \<open>simp_all add: args_def\<close>)
    then obtain w where w: "?rec = [Num x1, Num y1, Num x2, Num y2, w]" by blast
    then have "removed_value s args (last cells) = w"
      using assms(2) by (simp add: removed_value_def Let_def nth_js_def)
    with True have "r = Some w" using l(3) by simp
    with rsd rs(1) have "ret = Some [Num x1, Num y1, Num x2, Num y2, w]" "s' = g"
      by simp_all
    with True rs l(2) w show ?thesis by simp
  qed
qed

text \<open>
  C9. On a segment index that satisfies the invariant, \<open>removeSegment(x1, y1, x2, y2)\<close>
  goes through the cells of \<open>cellsUnderSegment(x1, y1, x2, y2)\<close> with the default
  \<open>eps\<close>. If every one of these cells has a record with the four coordinates, the call
  removes the first such record from each of them, changes no other cell, and returns
  \<open>[x1, y1, x2, y2, value]\<close>, the record it removed from the last cell. If one of the
  cells has no such record, the call returns \<open>undefined\<close>.
\<close>

theorem removeSegment_spec:
  fixes s :: "'v SpatialHash" and x1 y1 x2 y2 :: real
  assumes "stride_inv s" and "numElements s = 5"
  defines "cells \<equiv> cellsUnderSegment s x1 y1 x2 y2 (default_eps s)"
    and "args \<equiv> [Num x1, Num y1, Num x2, Num y2]"
  shows "((\<forall>c \<in> set cells. has_match s args c) \<longrightarrow>
      (\<exists>w s'. removeSegment s x1 y1 x2 y2 = Some (Some [Num x1, Num y1, Num x2, Num y2, w], s')
         \<and> [Num x1, Num y1, Num x2, Num y2, w] =
             records 5 (cell_list s (last cells)) !
               first_match args (records 5 (cell_list s (last cells)))
         \<and> stride_inv s'
         \<and> (\<forall>key. cell_list s' key =
               (if key \<in> set cells
                then concat (remove_first args (records 5 (cell_list s key)))
                else cell_list s key))))
    \<and> ((\<exists>c \<in> set cells. \<not> has_match s args c) \<longrightarrow>
      (\<exists>s'. removeSegment s x1 y1 x2 y2 = Some (None, s')))"
proof -
  from removeSegment_cases [OF assms(1,2), of x1 y1 x2 y2, folded cells_def args_def]
  obtain ret s' where
    r: "removeSegment s x1 y1 x2 y2 = Some (ret, s')" "stride_inv s'"
       "\<And>key. cell_list s' key =
          (if key \<in> set (takeWhile (has_match s args) cells)
           then concat (remove_first args (records 5 (cell_list s key)))
           else cell_list s key)"
       "ret = (if \<forall>c \<in> set cells. has_match s args c
               then Some (records 5 (cell_list s (last cells)) !
                            first_match args (records 5 (cell_list s (last cells))))
               else None)"
       "(\<forall>c \<in> set cells. has_match s args c) \<longrightarrow>
          (\<exists>w. ret = Some [Num x1, Num y1, Num x2, Num y2, w])"
    by blast
  show ?thesis
  proof (intro conjI impI)
    assume all: "\<forall>c \<in> set cells. has_match s args c"
    then have tw: "takeWhile (has_match s args) cells = cells"
      by (simp add: takeWhile_eq_all_conv)
    from all r(5) obtain w where w: "ret = Some [Num x1, Num y1, Num x2, Num y2, w]" by blast
    with all r(4) have eq: "[Num x1, Num y1, Num x2, Num y2, w] =
        records 5 (cell_list s (last cells)) !
          first_match args (records 5 (cell_list s (last cells)))"
      by simp
    have rs: "removeSegment s x1 y1 x2 y2 = Some (Some [Num x1, Num y1, Num x2, Num y2, w], s')"
      using r(1) w by simp
    have cl: "\<forall>key. cell_list s' key =
               (if key \<in> set cells
                then concat (remove_first args (records 5 (cell_list s key)))
                else cell_list s key)"
      using r(3) tw by simp
    show "\<exists>w s'. removeSegment s x1 y1 x2 y2 = Some (Some [Num x1, Num y1, Num x2, Num y2, w], s')
         \<and> [Num x1, Num y1, Num x2, Num y2, w] =
             records 5 (cell_list s (last cells)) !
               first_match args (records 5 (cell_list s (last cells)))
         \<and> stride_inv s'
         \<and> (\<forall>key. cell_list s' key =
               (if key \<in> set cells
                then concat (remove_first args (records 5 (cell_list s key)))
                else cell_list s key))"
      using rs eq r(2) cl by (intro exI [of _ w] exI [of _ s'] conjI)
  next
    assume "\<exists>c \<in> set cells. \<not> has_match s args c"
    with r(4) have "ret = None" by auto
    with r(1) show "\<exists>s'. removeSegment s x1 y1 x2 y2 = Some (None, s')" by blast
  qed
qed

theorem removeSegment_spec_witness:
  "(\<exists>s'. removeSegment (addSegment (SegmentHash 10) 2 2 3 3 (Val ''foo'')) 2 2 3 3
       = Some (Some [Num 2, Num 2, Num 3, Num 3, Val ''foo''], s'))
   \<and> (\<exists>s'. removeSegment (SegmentHash 10 :: string SpatialHash) 2 2 3 3 = Some (None, s'))"
proof -
  let ?e = "SegmentHash 10 :: string SpatialHash"
  let ?s = "addSegment ?e 2 2 3 3 (Val ''foo'')"
  let ?args = "[Num 2, Num 2, Num 3, Num 3] :: string jsval list"
  have e: "stride_inv ?e" "numElements ?e = 5" "cellSize ?e = 10" "default_eps ?e = 5"
    by (simp_all add: SegmentHash_def stride_inv_empty default_eps_def)
      (simp_all add: SpatialHash_def)
  have s: "stride_inv ?s" "numElements ?s = 5" "cellSize ?s = 10" "default_eps ?s = 5"
    using stride_inv_addSegment [OF e(1,2), of 2 2 3 3 "Val ''foo''"] e
    by (simp_all add: default_eps_def)
  have ce: "cellsUnderSegment ?e 2 2 3 3 5 = [(- 1, 0), (- 1, - 1), (0, - 1), (0, 0)]"
    by (simp add: segment_eval e)
  have cs: "cellsUnderSegment ?s 2 2 3 3 5 = [(- 1, 0), (- 1, - 1), (0, - 1), (0, 0)]"
    using cellsUnderSegment_cellSize [of ?s ?e] s(3) e(3) ce by simp
  have empty: "cell_list ?e key = []" for key
    by (simp add: cell_list_def SegmentHash_def SpatialHash_def)
  have cl: "cell_list ?s key =
      (if key \<in> {(- 1, 0), (- 1, - 1), (0, - 1), (0, 0)}
       then [Num 2, Num 2, Num 3, Num 3, Val ''foo''] else [])" for key
    by (simp add: cell_list_addSegment e ce empty)
  have hm: "\<forall>c \<in> set (cellsUnderSegment ?s 2 2 3 3 (default_eps ?s)). has_match ?s ?args c"
    by (simp add: s cs has_match_def cl records_def matches_def)
  have nm: "\<exists>c \<in> set (cellsUnderSegment ?e 2 2 3 3 (default_eps ?e)). \<not> has_match ?e ?args c"
    by (auto simp: e ce has_match_def empty records_def)
  from removeSegment_spec [OF s(1,2), of 2 2 3 3] hm
  obtain w s' where
    w: "removeSegment ?s 2 2 3 3 = Some (Some [Num 2, Num 2, Num 3, Num 3, w], s')"
       "[Num 2, Num 2, Num 3, Num 3, w] =
          records 5 (cell_list ?s (last (cellsUnderSegment ?s 2 2 3 3 (default_eps ?s)))) !
            first_match ?args
              (records 5 (cell_list ?s (last (cellsUnderSegment ?s 2 2 3 3 (default_eps ?s)))))"
    by blast
  from w(2) have "w = Val ''foo''"
    by (simp add: s cs cl records_def first_match_def matches_def)
  with w(1) have a: "\<exists>s'. removeSegment ?s 2 2 3 3
       = Some (Some [Num 2, Num 2, Num 3, Num 3, Val ''foo''], s')" by blast
  from removeSegment_spec [OF e(1,2), of 2 2 3 3] nm
  have b: "\<exists>s'. removeSegment ?e 2 2 3 3 = Some (None, s')" by blast
  from a b show ?thesis by blast
qed

section \<open>Truncation and the cells of an extent\<close>

lemma toInt32_in_range:
  assumes "- (2 ^ 31) < v" and "v < 2 ^ 31"
  shows "toInt32 v = (if v < 0 then \<lceil>v\<rceil> else \<lfloor>v\<rfloor>)"
proof (cases "v < 0")
  case True
  define t where "t = \<lceil>v\<rceil>"
  have lo: "- (2 ^ 31) < t" using assms(1) by (simp add: t_def less_ceiling_iff)
  have hi: "t \<le> 0" using True by (simp add: t_def ceiling_le_iff)
  have wrap: "(if 2 ^ 31 \<le> t mod 2 ^ 32 then t mod 2 ^ 32 - 2 ^ 32 else t mod 2 ^ 32) = t"
  proof (cases "t = 0")
    case True
    then show ?thesis by simp
  next
    case False
    with hi have neg: "t < 0" by simp
    have "(t + 2 ^ 32) mod 2 ^ 32 = t + 2 ^ 32"
      using lo neg by (intro mod_pos_pos_trivial) simp_all
    then have "t mod 2 ^ 32 = t + 2 ^ 32" by simp
    with lo show ?thesis by simp
  qed
  have "toInt32 v =
      (if 2 ^ 31 \<le> \<lceil>v\<rceil> mod 2 ^ 32 then \<lceil>v\<rceil> mod 2 ^ 32 - 2 ^ 32 else \<lceil>v\<rceil> mod 2 ^ 32)"
    using True by (simp only: toInt32_def Let_def if_True)
  also have "\<dots> = \<lceil>v\<rceil>" by (rule wrap [unfolded t_def])
  finally show ?thesis using True by (simp only: if_True)
next
  case False
  then have "toInt32 v = \<lfloor>v\<rfloor>" using assms(2) by (simp add: toInt32_nonneg)
  with False show ?thesis by simp
qed

lemma trunc_mono:
  fixes u v :: real
  assumes "u \<le> v"
  shows "(if u < 0 then \<lceil>u\<rceil> else \<lfloor>u\<rfloor>) \<le> (if v < 0 then \<lceil>v\<rceil> else \<lfloor>v\<rfloor>)"
proof -
  have a: "\<lceil>u\<rceil> \<le> \<lceil>v\<rceil>" "\<lfloor>u\<rfloor> \<le> \<lfloor>v\<rfloor>"
    using assms by (simp_all add: ceiling_mono floor_mono)
  have b: "\<lceil>u\<rceil> \<le> \<lfloor>v\<rfloor>" if "u < 0" "\<not> v < 0"
  proof -
    have "\<lceil>u\<rceil> \<le> 0" using that(1) by (simp add: ceiling_le_iff)
    moreover have "0 \<le> \<lfloor>v\<rfloor>" using that(2) by simp
    ultimately show ?thesis by linarith
  qed
  from a b assms show ?thesis by auto
qed

lemma toInt32_mono:
  assumes "- (2 ^ 31) < u" and "u \<le> v" and "v < 2 ^ 31"
  shows "toInt32 u \<le> toInt32 v"
proof -
  have "toInt32 u = (if u < 0 then \<lceil>u\<rceil> else \<lfloor>u\<rfloor>)"
    using assms by (intro toInt32_in_range) linarith+
  moreover have "toInt32 v = (if v < 0 then \<lceil>v\<rceil> else \<lfloor>v\<rfloor>)"
    using assms by (intro toInt32_in_range) linarith+
  ultimately show ?thesis using trunc_mono [OF assms(2)] by simp
qed

lemma cellsUnderExtent_product:
  "cellsUnderExtent fl h x y width height =
     map prod.swap (List.product
       [toInt32 (fl (y / cellSize h)) .. toInt32 (fl (fl (y + height) / cellSize h))]
       [toInt32 (fl (x / cellSize h)) .. toInt32 (fl (fl (x + width) / cellSize h))])"
  by (simp add: cellsUnderExtent_def Let_def product_concat_map map_concat comp_def)

lemma distinct_cellsUnderExtent: "distinct (cellsUnderExtent fl h x y width height)"
  unfolding cellsUnderExtent_product
  by (simp add: distinct_map distinct_product)

lemma set_cellsUnderExtent:
  "((a, b) \<in> set (cellsUnderExtent fl h x y width height)) =
     (toInt32 (fl (x / cellSize h)) \<le> a \<and> a \<le> toInt32 (fl (fl (x + width) / cellSize h)) \<and>
      toInt32 (fl (y / cellSize h)) \<le> b \<and> b \<le> toInt32 (fl (fl (y + height) / cellSize h)))"
  unfolding cellsUnderExtent_product by auto

section \<open>The scan of nearbyPoints\<close>

lemma nth_js_concat:
  assumes "\<forall>r \<in> set pre. length r = n" and "length r = n" and "k < n"
  shows "nth_js (concat (pre @ r # post)) (n * length pre + k) = r ! k"
proof -
  have "length (concat pre) = n * length pre"
    using assms(1) by (rule length_concat_stride)
  then show ?thesis
    using assms(2,3) by (simp add: nth_js_def nth_append)
qed

lemma nearby_scan_concat:
  "\<forall>r \<in> set pre \<union> set post. length r = 3 \<Longrightarrow>
     nearby_scan fl (concat (pre @ post)) cx cy r2 (3 * length pre) =
       concat (map (nearby_rec fl cx cy r2) post)"
proof (induction post arbitrary: pre)
  case Nil
  then have "length (concat pre) = 3 * length pre" by (simp add: length_concat_stride)
  then show ?case
    by (simp add: nearby_scan.simps [of _ _ _ _ _ "3 * length pre"])
next
  case (Cons r post)
  have lp: "length (concat pre) = 3 * length pre"
    using Cons.prems by (simp add: length_concat_stride)
  have pre: "\<forall>r \<in> set pre. length r = 3" and lr: "length r = 3"
    using Cons.prems by simp_all
  have lt: "3 * length pre < length (concat (pre @ r # post))"
    using lp lr by simp
  have n0: "nth_js (concat (pre @ r # post)) (3 * length pre) = r ! 0"
    using nth_js_concat [OF pre lr, of 0 post] by simp
  have n1: "nth_js (concat (pre @ r # post)) (3 * length pre + 1) = r ! 1"
    using nth_js_concat [OF pre lr, of 1 post] by simp
  have n2: "nth_js (concat (pre @ r # post)) (3 * length pre + 2) = r ! 2"
    using nth_js_concat [OF pre lr, of 2 post] by simp
  have "\<forall>r \<in> set (pre @ [r]) \<union> set post. length r = 3" using Cons.prems by auto
  from Cons.IH [OF this] have ih:
    "nearby_scan fl (concat (pre @ r # post)) cx cy r2 (3 * length pre + 3) =
       concat (map (nearby_rec fl cx cy r2) post)"
    by (simp add: algebra_simps)
  show ?case
    by (subst nearby_scan.simps, simp only: lt if_True n0 n1 n2 ih Let_def)
      (simp add: nearby_rec_def Let_def split: option.splits)
qed

lemma nearby_scan_records:
  assumes "3 dvd length arr"
  shows "nearby_scan fl arr cx cy r2 0 = concat (map (nearby_rec fl cx cy r2) (records 3 arr))"
proof -
  have n: "(0::nat) < 3" by simp
  note r = stride_records [OF n assms]
  from nearby_scan_concat [of "[]" "records 3 arr" fl cx cy r2] r show ?thesis by simp
qed

lemma nearbyPoints_records:
  assumes "stride_inv h" and "numElements h = 3"
  shows "nearbyPoints fl h cx cy r =
     concat (map (\<lambda>key. concat (map (nearby_rec fl cx cy (fl (r * r)))
                                   (records 3 (cell_list h key))))
                 (cellsUnderExtent fl h (fl (cx - r)) (fl (cy - r)) (fl (r + r)) (fl (r + r))))"
proof -
  have "(case map_js h key of None \<Rightarrow> [] | Some arr \<Rightarrow> nearby_scan fl arr cx cy (fl (r * r)) 0)
      = concat (map (nearby_rec fl cx cy (fl (r * r))) (records 3 (cell_list h key)))" for key
  proof (cases "map_js h key")
    case None
    then show ?thesis by (simp add: cell_list_def records_def)
  next
    case (Some arr)
    have "3 dvd length (cell_list h key)"
      using cell_list_dvd [OF assms(1), of key] assms(2) by simp
    with Some show ?thesis by (simp add: cell_list_def nearby_scan_records)
  qed
  then show ?thesis by (simp add: nearbyPoints_def Let_def)
qed

section \<open>Counting the records that nearbyPoints yields\<close>

lemma count_list_concat:
  "count_list (concat xss) x = sum_list (map (\<lambda>xs. count_list xs x) xss)"
  by (induction xss) simp_all

lemma point_record_okE:
  assumes "point_record_ok sz key rec"
  obtains x y v where "rec = [Num x, Num y, v]" and "key = (toInt32 (x / sz), toInt32 (y / sz))"
  using assms by (induction sz key rec rule: point_record_ok.induct) simp_all

lemma nearby_rec_point:
  "nearby_rec fl cx cy r2 [Num x, Num y, v] =
     (if sqdist fl cx cy x y \<le> r2 then [[Num x, Num y, v, Num (sqdist fl cx cy x y)]] else [])"
  by (simp add: nearby_rec_def Let_def)

lemma count_nearby_rec:
  assumes "point_record_ok sz key rec"
  shows "count_list (nearby_rec fl cx cy r2 rec) [Num x, Num y, v, Num d] =
     (if rec = [Num x, Num y, v] \<and> d = sqdist fl cx cy x y \<and> d \<le> r2 then 1 else 0)"
proof -
  from assms obtain a b w where "rec = [Num a, Num b, w]" by (rule point_record_okE)
  then show ?thesis by (auto simp: nearby_rec_point)
qed

lemma count_nearby_recs:
  assumes "\<forall>rec \<in> set recs. point_record_ok sz key rec"
  shows "count_list (concat (map (nearby_rec fl cx cy r2) recs)) [Num x, Num y, v, Num d] =
     (if d = sqdist fl cx cy x y \<and> d \<le> r2 then count_list recs [Num x, Num y, v] else 0)"
  using assms
proof (induction recs)
  case Nil
  then show ?case by simp
next
  case (Cons rec recs)
  then have "point_record_ok sz key rec" by simp
  from count_nearby_rec [OF this, of fl cx cy r2 x y v d] Cons show ?case by simp
qed

lemma sum_list_single:
  assumes "distinct cs" and "\<forall>c \<in> set cs. c \<noteq> k \<longrightarrow> f c = (0::nat)"
  shows "sum_list (map f cs) = (if k \<in> set cs then f k else 0)"
  using assms by (induction cs) auto

lemma point_inv_cell:
  assumes "point_inv h" and "[Num x, Num y, v] \<in> set (records 3 (cell_list h key))"
  shows "key = (toInt32 (x / cellSize h), toInt32 (y / cellSize h))"
proof -
  from assms have "point_record_ok (cellSize h) key [Num x, Num y, v]"
    unfolding point_inv_def by blast
  then show ?thesis by simp
qed

lemma count_nearbyPoints:
  assumes "point_inv h"
  shows "count_list (nearbyPoints fl h cx cy r) [Num x, Num y, v, Num d] =
     (if d = sqdist fl cx cy x y \<and> d \<le> fl (r * r) \<and>
         (toInt32 (x / cellSize h), toInt32 (y / cellSize h))
           \<in> set (cellsUnderExtent fl h (fl (cx - r)) (fl (cy - r)) (fl (r + r)) (fl (r + r)))
      then point_copies h x y v else 0)"
proof -
  let ?cells = "cellsUnderExtent fl h (fl (cx - r)) (fl (cy - r)) (fl (r + r)) (fl (r + r))"
  let ?k = "(toInt32 (x / cellSize h), toInt32 (y / cellSize h))"
  let ?f = "\<lambda>key. count_list (concat (map (nearby_rec fl cx cy (fl (r * r)))
              (records 3 (cell_list h key)))) [Num x, Num y, v, Num d]"
  from assms have inv: "stride_inv h" "numElements h = 3"
    and ok: "\<And>key. \<forall>rec \<in> set (records 3 (cell_list h key)). point_record_ok (cellSize h) key rec"
    unfolding point_inv_def by blast+
  have f: "?f key = (if d = sqdist fl cx cy x y \<and> d \<le> fl (r * r)
      then count_list (records 3 (cell_list h key)) [Num x, Num y, v] else 0)" for key
    by (rule count_nearby_recs [OF ok])
  have zero: "\<forall>c \<in> set ?cells. c \<noteq> ?k \<longrightarrow> ?f c = 0"
  proof (intro ballI impI)
    fix c assume "c \<noteq> ?k"
    then have "[Num x, Num y, v] \<notin> set (records 3 (cell_list h c))"
      using point_inv_cell [OF assms, of x y v c] by blast
    then show "?f c = 0" by (simp add: f)
  qed
  have "count_list (nearbyPoints fl h cx cy r) [Num x, Num y, v, Num d] = sum_list (map ?f ?cells)"
    by (simp add: nearbyPoints_records [OF inv] count_list_concat comp_def)
  also have "\<dots> = (if ?k \<in> set ?cells then ?f ?k else 0)"
    by (rule sum_list_single [OF distinct_cellsUnderExtent zero])
  also have "\<dots> = (if d = sqdist fl cx cy x y \<and> d \<le> fl (r * r) \<and> ?k \<in> set ?cells
      then point_copies h x y v else 0)"
    unfolding f point_copies_def by simp
  finally show ?thesis .
qed

lemma nearbyPoints_sound:
  assumes "point_inv h" and "out \<in> set (nearbyPoints fl h cx cy r)"
  shows "\<exists>x y v. out = [Num x, Num y, v, Num (sqdist fl cx cy x y)] \<and>
     sqdist fl cx cy x y \<le> fl (r * r) \<and> 0 < point_copies h x y v"
proof -
  from assms(1) have inv: "stride_inv h" "numElements h = 3"
    unfolding point_inv_def by blast+
  from assms(2) obtain key rec where
    rec: "rec \<in> set (records 3 (cell_list h key))"
      "out \<in> set (nearby_rec fl cx cy (fl (r * r)) rec)"
    unfolding nearbyPoints_records [OF inv] by auto
  from assms(1) rec(1) have "point_record_ok (cellSize h) key rec"
    unfolding point_inv_def by blast
  then obtain x y v where
    xy: "rec = [Num x, Num y, v]" "key = (toInt32 (x / cellSize h), toInt32 (y / cellSize h))"
    by (rule point_record_okE)
  from rec(2) have o: "out = [Num x, Num y, v, Num (sqdist fl cx cy x y)]"
    "sqdist fl cx cy x y \<le> fl (r * r)"
    by (simp_all add: xy(1) nearby_rec_point split: if_splits)
  have "0 < point_copies h x y v"
    using rec(1) unfolding point_copies_def xy [symmetric]
    by (meson count_list_0_iff gr0I)
  with o show ?thesis by blast
qed

section \<open>Range of a radius query\<close>

lemma dist2_nonneg: "0 \<le> dist2 cx cy x y"
  by (simp add: dist2_def)

lemma within_radius_iff:
  assumes "0 \<le> r"
  shows "within_radius cx cy r x y = (dist2 cx cy x y \<le> r * r)"
proof
  assume "within_radius cx cy r x y"
  then have "dist2 cx cy x y \<le> r\<^sup>2"
    unfolding within_radius_def by (rule sqrt_le_D)
  then show "dist2 cx cy x y \<le> r * r" by (simp add: power2_eq_square)
next
  assume "dist2 cx cy x y \<le> r * r"
  then have "dist2 cx cy x y \<le> r\<^sup>2" by (simp add: power2_eq_square)
  with assms show "within_radius cx cy r x y"
    unfolding within_radius_def by (intro real_le_lsqrt)
qed

lemma dist2_bound:
  assumes "0 \<le> r" and "dist2 cx cy x y \<le> r * r"
  shows "cx - r \<le> x \<and> x \<le> cx + r \<and> cy - r \<le> y \<and> y \<le> cy + r"
proof -
  have s: "(cx - x)\<^sup>2 + (cy - y)\<^sup>2 \<le> r\<^sup>2"
    using assms(2) by (simp add: dist2_def power2_eq_square)
  have "(cx - x)\<^sup>2 \<le> r\<^sup>2"
    using s zero_le_power2 [of "cy - y"] by linarith
  then have a: "\<bar>cx - x\<bar> \<le> r" using assms(1) by (simp add: abs_le_square_iff [symmetric])
  have "(cy - y)\<^sup>2 \<le> r\<^sup>2"
    using s zero_le_power2 [of "cx - x"] by linarith
  then have b: "\<bar>cy - y\<bar> \<le> r" using assms(1) by (simp add: abs_le_square_iff [symmetric])
  from a b show ?thesis by linarith
qed

lemma toInt32_between:
  assumes "0 < sz" and "lo \<le> v" and "v \<le> hi"
    and "in_range32 (lo / sz)" and "in_range32 (hi / sz)"
  shows "toInt32 (lo / sz) \<le> toInt32 (v / sz) \<and> toInt32 (v / sz) \<le> toInt32 (hi / sz)"
proof -
  have a: "lo / sz \<le> v / sz" "v / sz \<le> hi / sz"
    using assms(1,2,3) by (simp_all add: divide_right_mono)
  have r: "- (2 ^ 31) < lo / sz" "hi / sz < 2 ^ 31"
    using assms(4,5) by (simp_all add: in_range32_def)
  have "toInt32 (lo / sz) \<le> toInt32 (v / sz)"
    by (rule toInt32_mono) (use a r in linarith)+
  moreover have "toInt32 (v / sz) \<le> toInt32 (hi / sz)"
    by (rule toInt32_mono) (use a r in linarith)+
  ultimately show ?thesis by simp
qed

section \<open>Rounding on the grid\<close>

lemma on_gridE:
  assumes "on_grid k v"
  obtains m :: int where "\<bar>m\<bar> < 2 ^ 25" and "v = of_int m / 2 ^ k"
proof
  let ?m = "\<lfloor>v * 2 ^ k\<rfloor>"
  from assms have e: "of_int ?m = v * 2 ^ k" and b: "\<bar>v * 2 ^ k\<bar> < 2 ^ 25"
    by (simp_all add: on_grid_def)
  from b have "\<bar>(of_int ?m :: real)\<bar> < 2 ^ 25" by (simp only: e)
  then have "(of_int \<bar>?m\<bar> :: real) < of_int (2 ^ 25)" by simp
  then show "\<bar>?m\<bar> < 2 ^ 25" by (simp only: of_int_less_iff)
  show "v = of_int ?m / 2 ^ k" by (simp add: e)
qed

lemma fl_exact:
  assumes "double_rounding fl" and "\<bar>m\<bar> \<le> 2 ^ 53" and "k \<le> 1022"
  shows "fl (of_int m / 2 ^ k) = of_int m / 2 ^ k"
  using assms unfolding double_rounding_def by blast

lemma fl_mono:
  assumes "double_rounding fl" and "u \<le> v"
  shows "fl u \<le> fl v"
  using assms unfolding double_rounding_def mono_def by blast

lemma fl_int:
  assumes "double_rounding fl" and "\<bar>m\<bar> \<le> 2 ^ 53"
  shows "fl (of_int m) = of_int m"
  using fl_exact [OF assms, of 0] by simp

lemma fl_add:
  assumes "double_rounding fl" and "k \<le> 1022" and "\<bar>a + c\<bar> \<le> 2 ^ 53"
  shows "fl (of_int a / 2 ^ k + of_int c / 2 ^ k) = of_int (a + c) / 2 ^ k"
proof -
  have "of_int a / 2 ^ k + of_int c / 2 ^ k = (of_int (a + c) :: real) / 2 ^ k"
    by (simp add: add_divide_distrib)
  with fl_exact [OF assms(1,3,2)] show ?thesis by simp
qed

lemma fl_diff:
  assumes "double_rounding fl" and "k \<le> 1022" and "\<bar>a - c\<bar> \<le> 2 ^ 53"
  shows "fl (of_int a / 2 ^ k - of_int c / 2 ^ k) = of_int (a - c) / 2 ^ k"
proof -
  have "of_int a / 2 ^ k - of_int c / 2 ^ k = (of_int (a - c) :: real) / 2 ^ k"
    by (simp add: diff_divide_distrib)
  with fl_exact [OF assms(1,3,2)] show ?thesis by simp
qed

lemma fl_mult:
  assumes "double_rounding fl" and "k + j \<le> 1022" and "\<bar>a * c\<bar> \<le> 2 ^ 53"
  shows "fl ((of_int a / 2 ^ k) * (of_int c / 2 ^ j)) = of_int (a * c) / 2 ^ (k + j)"
proof -
  have "(of_int a / 2 ^ k) * (of_int c / 2 ^ j) = (of_int (a * c) :: real) / 2 ^ (k + j)"
    by (simp add: power_add)
  then show ?thesis by (simp only: fl_exact [OF assms(1,3,2)])
qed

lemma abs_mult_bound:
  fixes a c :: int
  assumes "\<bar>a\<bar> \<le> A" and "\<bar>c\<bar> \<le> C"
  shows "\<bar>a * c\<bar> \<le> A * C"
proof -
  have "\<bar>a * c\<bar> = \<bar>a\<bar> * \<bar>c\<bar>" by (simp add: abs_mult)
  also have "\<dots> \<le> A * C" using assms by (intro mult_mono) simp_all
  finally show ?thesis .
qed

lemma abs_div_bound:
  fixes a b :: int
  assumes "1 \<le> b"
  shows "\<bar>a div b\<bar> \<le> \<bar>a\<bar>"
proof (cases "0 \<le> a")
  case True
  then have "0 \<le> a div b" using assms by (simp add: pos_imp_zdiv_nonneg_iff)
  moreover have "a div b \<le> a div 1" using True assms by (intro zdiv_mono2) simp_all
  ultimately show ?thesis using True by simp
next
  case False
  then have "a div b < 0" using assms by (simp add: pos_imp_zdiv_neg_iff)
  moreover have "a div 1 \<le> a div b" using False assms by (intro zdiv_mono2_neg) simp_all
  ultimately show ?thesis using False by simp
qed

text \<open>
  The quotient of two integers \<open>a\<close> and \<open>b\<close> with \<open>1 \<le> b \<le> 2^25\<close> is an integer or at
  least \<open>1 / 2^25\<close> away from the integers, and the numbers \<open>n + 1 / 2^25\<close> and
  \<open>n + 1 - 1 / 2^25\<close> are doubles: the rounded quotient is truncated to the same integer.
\<close>

lemma fl_quotient:
  fixes a b :: int
  assumes "double_rounding fl" and "1 \<le> b" and "b \<le> 2 ^ 25" and "\<bar>a\<bar> \<le> 2 ^ 27"
  shows "toInt32 (fl (of_int a / of_int b)) = toInt32 (of_int a / of_int b)"
proof -
  let ?q = "(of_int a / of_int b) :: real"
  define n where "n = a div b"
  have bpos: "(0::real) < of_int b" using assms(2) by simp
  have nb: "\<bar>n\<bar> \<le> 2 ^ 27"
    using abs_div_bound [OF assms(2), of a] assms(4) by (simp add: n_def)
  have same: "(if fl ?q < 0 then \<lceil>fl ?q\<rceil> else \<lfloor>fl ?q\<rfloor>) = (if ?q < 0 then \<lceil>?q\<rceil> else \<lfloor>?q\<rfloor>)"
  proof (cases "b dvd a")
    case True
    then have "a = n * b" by (simp add: n_def)
    then have "?q = of_int n" using bpos by simp
    moreover have "fl (of_int n) = of_int n"
      by (rule fl_int [OF assms(1)]) (use nb in simp)
    ultimately show ?thesis by simp
  next
    case False
    define r where "r = a mod b"
    have "0 \<le> r" "r < b" "r \<noteq> 0"
      using False assms(2) by (simp_all add: r_def mod_eq_0_iff_dvd)
    then have r: "0 < r" "r < b" by simp_all
    have a: "a = n * b + r" by (simp add: n_def r_def)
    have q: "?q = of_int n + of_int r / of_int b"
      using bpos by (simp add: a field_simps)
    define e where "e = (1 / 2 ^ 25 :: real)"
    have eb: "e \<le> 1 / of_int b"
    proof -
      have "(of_int b :: real) \<le> of_int (2 ^ 25)" using assms(3) by (simp only: of_int_le_iff)
      then show ?thesis unfolding e_def using bpos by (simp add: field_simps)
    qed
    have rb: "e \<le> of_int r / of_int b"
    proof -
      have "(1::real) / of_int b \<le> of_int r / of_int b"
        using r(1) bpos by (intro divide_right_mono) simp_all
      with eb show ?thesis by linarith
    qed
    have rb': "of_int r / of_int b \<le> 1 - e"
    proof -
      have "r \<le> b - 1" using r(2) by simp
      then have "(of_int r :: real) \<le> of_int b - 1" by (metis of_int_le_iff of_int_diff of_int_1)
      then have "of_int r / of_int b \<le> (of_int b - 1) / (of_int b :: real)"
        using bpos by (intro divide_right_mono) simp_all
      also have "\<dots> = 1 - 1 / of_int b" using bpos by (simp add: field_simps)
      also have "\<dots> \<le> 1 - e" using eb by simp
      finally show ?thesis .
    qed
    define lo where "lo = (of_int (n * 2 ^ 25 + 1) / 2 ^ 25 :: real)"
    define hi where "hi = (of_int ((n + 1) * 2 ^ 25 - 1) / 2 ^ 25 :: real)"
    have lo: "lo = of_int n + e" by (simp add: lo_def e_def field_simps)
    have hi: "hi = of_int n + 1 - e" by (simp add: hi_def e_def field_simps)
    have nb': "- (2 ^ 27) \<le> n" "n \<le> 2 ^ 27" using nb by (simp_all add: abs_le_iff)
    have "\<bar>n * 2 ^ 25 + 1\<bar> \<le> 2 ^ 53" using nb' by (simp add: abs_le_iff)
    then have flo: "fl lo = lo"
      unfolding lo_def by (intro fl_exact [OF assms(1)]) simp_all
    have "\<bar>(n + 1) * 2 ^ 25 - 1\<bar> \<le> 2 ^ 53" using nb' by (simp add: abs_le_iff)
    then have fhi: "fl hi = hi"
      unfolding hi_def by (intro fl_exact [OF assms(1)]) simp_all
    have "lo \<le> ?q" "?q \<le> hi" using rb rb' by (simp_all add: lo hi q)
    then have "fl lo \<le> fl ?q" "fl ?q \<le> fl hi"
      by (simp_all add: fl_mono [OF assms(1)])
    then have b: "of_int n + e \<le> fl ?q" "fl ?q \<le> of_int n + 1 - e"
      unfolding flo fhi unfolding lo hi .
    have e: "0 < e" "e < 1" by (simp_all add: e_def)
    have qb: "of_int n + e \<le> ?q" "?q \<le> of_int n + 1 - e"
      using rb rb' unfolding q by linarith+
    have f1: "\<lfloor>fl ?q\<rfloor> = n" using b e by (intro floor_unique) linarith+
    have f2: "\<lfloor>?q\<rfloor> = n" using qb e by (intro floor_unique) linarith+
    have c1: "\<lceil>fl ?q\<rceil> = n + 1"
    proof (rule ceiling_unique)
      show "of_int (n + 1) - 1 < fl ?q" using b e by simp
      show "fl ?q \<le> of_int (n + 1)" using b e by simp
    qed
    have c2: "\<lceil>?q\<rceil> = n + 1"
    proof (rule ceiling_unique)
      show "of_int (n + 1) - 1 < ?q" using qb e by simp
      show "?q \<le> of_int (n + 1)" using qb e by simp
    qed
    have s: "(fl ?q < 0) = (?q < 0)"
    proof (cases "n < 0")
      case True
      then have "n \<le> - 1" by simp
      then have "(of_int n :: real) \<le> of_int (- 1)" by (simp only: of_int_le_iff)
      then have "(of_int n :: real) \<le> - 1" by simp
      with b qb e show ?thesis by linarith
    next
      case False
      then have "(0::real) \<le> of_int n" by simp
      with b qb e show ?thesis by linarith
    qed
    show ?thesis by (simp add: f1 f2 c1 c2 s)
  qed
  show ?thesis unfolding toInt32_def Let_def same ..
qed

text \<open>The cell coordinate of a grid number, for a cell size on the grid.\<close>

lemma grid_quotient:
  assumes "on_grid k sz" and "0 < sz"
  shows "\<exists>b :: int. 1 \<le> b \<and> b \<le> 2 ^ 25 \<and>
     (\<forall>a :: int. (of_int a / 2 ^ k) / sz = of_int a / of_int b)"
proof -
  from assms(1) obtain b :: int where b: "\<bar>b\<bar> < 2 ^ 25" "sz = of_int b / 2 ^ k"
    by (rule on_gridE)
  from assms(2) have "(0::real) < of_int b" unfolding b(2) by (simp add: zero_less_divide_iff)
  then have "1 \<le> b" by simp
  moreover have "b \<le> 2 ^ 25" using b(1) by simp
  moreover have "\<forall>a :: int. (of_int a / 2 ^ k) / sz = of_int a / of_int b"
    unfolding b(2) by simp
  ultimately show ?thesis by blast
qed

lemma fl_cell:
  assumes "double_rounding fl" and "on_grid k sz" and "0 < sz" and "\<bar>a\<bar> \<le> 2 ^ 27"
  shows "toInt32 (fl ((of_int a / 2 ^ k) / sz)) = toInt32 ((of_int a / 2 ^ k) / sz)"
proof -
  from grid_quotient [OF assms(2,3)] obtain b :: int where b: "1 \<le> b" "b \<le> 2 ^ 25"
    "\<And>a :: int. (of_int a / 2 ^ k) / sz = of_int a / of_int b"
    by blast
  show ?thesis unfolding b(3) by (rule fl_quotient [OF assms(1) b(1,2) assms(4)])
qed

lemma grid_in_range:
  assumes "on_grid k sz" and "0 < sz" and "\<bar>a\<bar> \<le> 2 ^ 27"
  shows "in_range32 ((of_int a / 2 ^ k) / sz)"
proof -
  from grid_quotient [OF assms(1,2)] obtain b :: int where b: "1 \<le> b" "b \<le> 2 ^ 25"
    "\<And>a :: int. (of_int a / 2 ^ k) / sz = of_int a / of_int b"
    by blast
  have b1: "(1::real) \<le> of_int b" using b(1) by simp
  define q where "q = (of_int a :: real) / of_int b"
  have "\<bar>q\<bar> = \<bar>of_int a\<bar> / of_int b" using b1 by (simp add: q_def)
  also have "\<dots> \<le> \<bar>of_int a\<bar> / 1" using b1 by (intro divide_left_mono) simp_all
  also have "\<dots> = of_int \<bar>a\<bar>" by simp
  also have "\<dots> \<le> of_int (2 ^ 27)" using assms(3) by (simp only: of_int_le_iff)
  finally have "\<bar>q\<bar> \<le> 2 ^ 27" by simp
  then have "- (2 ^ 31) < q \<and> q < 2 ^ 31" by (simp add: abs_le_iff)
  then show ?thesis unfolding b(3) in_range32_def q_def .
qed

lemma fl_grid_cell:
  assumes "double_rounding fl" and "on_grid k sz" and "0 < sz" and "on_grid k x"
  shows "toInt32 (fl (x / sz)) = toInt32 (x / sz)"
proof -
  from assms(4) obtain a :: int where a: "\<bar>a\<bar> < 2 ^ 25" "x = of_int a / 2 ^ k"
    by (rule on_gridE)
  show ?thesis unfolding a(2) by (rule fl_cell [OF assms(1,2,3)]) (use a(1) in simp)
qed

text \<open>The squared distance of two grid points is computed without rounding.\<close>

lemma sqdist_exact:
  assumes "double_rounding fl" and "k \<le> 511"
    and "on_grid k cx" and "on_grid k cy" and "on_grid k x" and "on_grid k y"
  shows "sqdist fl cx cy x y = dist2 cx cy x y"
proof -
  from assms(3) obtain a :: int where a: "\<bar>a\<bar> < 2 ^ 25" "cx = of_int a / 2 ^ k" by (rule on_gridE)
  from assms(4) obtain b :: int where b: "\<bar>b\<bar> < 2 ^ 25" "cy = of_int b / 2 ^ k" by (rule on_gridE)
  from assms(5) obtain c :: int where c: "\<bar>c\<bar> < 2 ^ 25" "x = of_int c / 2 ^ k" by (rule on_gridE)
  from assms(6) obtain d :: int where d: "\<bar>d\<bar> < 2 ^ 25" "y = of_int d / 2 ^ k" by (rule on_gridE)
  have k: "k \<le> 1022" "k + k \<le> 1022" using assms(2) by simp_all
  have e: "\<bar>a - c\<bar> \<le> 2 ^ 26" and f: "\<bar>b - d\<bar> \<le> 2 ^ 26" using a(1) b(1) c(1) d(1) by simp_all
  have dx: "fl (cx - x) = of_int (a - c) / 2 ^ k"
    unfolding a(2) c(2) by (rule fl_diff [OF assms(1) k(1)]) (use e in simp)
  have dy: "fl (cy - y) = of_int (b - d) / 2 ^ k"
    unfolding b(2) d(2) by (rule fl_diff [OF assms(1) k(1)]) (use f in simp)
  have e2: "\<bar>(a - c) * (a - c)\<bar> \<le> 2 ^ 52" using abs_mult_bound [OF e e] by simp
  have f2: "\<bar>(b - d) * (b - d)\<bar> \<le> 2 ^ 52" using abs_mult_bound [OF f f] by simp
  have xx: "fl ((of_int (a - c) / 2 ^ k) * (of_int (a - c) / 2 ^ k))
      = of_int ((a - c) * (a - c)) / 2 ^ (k + k)"
    by (rule fl_mult [OF assms(1) k(2)]) (use e2 in simp)
  have yy: "fl ((of_int (b - d) / 2 ^ k) * (of_int (b - d) / 2 ^ k))
      = of_int ((b - d) * (b - d)) / 2 ^ (k + k)"
    by (rule fl_mult [OF assms(1) k(2)]) (use f2 in simp)
  have s: "fl (of_int ((a - c) * (a - c)) / 2 ^ (k + k) + of_int ((b - d) * (b - d)) / 2 ^ (k + k))
      = of_int ((a - c) * (a - c) + (b - d) * (b - d)) / 2 ^ (k + k)"
  proof (rule fl_add [OF assms(1) k(2)])
    have "\<bar>(a - c) * (a - c) + (b - d) * (b - d)\<bar>
        \<le> \<bar>(a - c) * (a - c)\<bar> + \<bar>(b - d) * (b - d)\<bar>"
      by (rule abs_triangle_ineq)
    with e2 f2 show "\<bar>(a - c) * (a - c) + (b - d) * (b - d)\<bar> \<le> 2 ^ 53" by simp
  qed
  have "sqdist fl cx cy x y
      = of_int ((a - c) * (a - c) + (b - d) * (b - d)) / 2 ^ (k + k)"
    unfolding sqdist_def Let_def dx dy xx yy s ..
  also have "\<dots> = dist2 cx cy x y"
    unfolding dist2_def a(2) b(2) c(2) d(2)
    by (simp add: power_add diff_divide_distrib [symmetric] add_divide_distrib [symmetric])
  finally show ?thesis .
qed

text \<open>The corner, the side and the bound of a radius query on the grid.\<close>

lemma fl_box:
  assumes "double_rounding fl" and "k \<le> 511" and "on_grid k c" and "on_grid k r"
  obtains lo hi :: int where "\<bar>lo\<bar> \<le> 2 ^ 27" and "\<bar>hi\<bar> \<le> 2 ^ 27"
    and "fl (c - r) = of_int lo / 2 ^ k" and "c - r = of_int lo / 2 ^ k"
    and "fl (fl (c - r) + fl (r + r)) = of_int hi / 2 ^ k" and "c + r = of_int hi / 2 ^ k"
    and "fl (r * r) = r * r"
proof -
  from assms(3) obtain a :: int where a: "\<bar>a\<bar> < 2 ^ 25" "c = of_int a / 2 ^ k" by (rule on_gridE)
  from assms(4) obtain m :: int where m: "\<bar>m\<bar> < 2 ^ 25" "r = of_int m / 2 ^ k" by (rule on_gridE)
  have k: "k \<le> 1022" "k + k \<le> 1022" using assms(2) by simp_all
  have lo: "fl (c - r) = of_int (a - m) / 2 ^ k"
    unfolding a(2) m(2) by (rule fl_diff [OF assms(1) k(1)]) (use a(1) m(1) in simp)
  have lo': "c - r = of_int (a - m) / 2 ^ k"
    unfolding a(2) m(2) by (simp add: diff_divide_distrib)
  have d: "fl (r + r) = of_int (m + m) / 2 ^ k"
    unfolding m(2) by (rule fl_add [OF assms(1) k(1)]) (use m(1) in simp)
  have "fl (of_int (a - m) / 2 ^ k + of_int (m + m) / 2 ^ k) = of_int ((a - m) + (m + m)) / 2 ^ k"
    by (rule fl_add [OF assms(1) k(1)]) (use a(1) m(1) in simp)
  then have hi: "fl (fl (c - r) + fl (r + r)) = of_int (a + m) / 2 ^ k"
    unfolding lo d by simp
  have hi': "c + r = of_int (a + m) / 2 ^ k"
    unfolding a(2) m(2) by (simp add: add_divide_distrib)
  have mm: "\<bar>m * m\<bar> \<le> 2 ^ 25 * 2 ^ 25"
    by (rule abs_mult_bound) (use m(1) in simp_all)
  have "fl ((of_int m / 2 ^ k) * (of_int m / 2 ^ k)) = of_int (m * m) / 2 ^ (k + k)"
    by (rule fl_mult [OF assms(1) k(2)]) (use mm in simp)
  then have r2: "fl (r * r) = r * r"
    unfolding m(2) by (simp add: power_add)
  have "\<bar>a - m\<bar> \<le> 2 ^ 27" "\<bar>a + m\<bar> \<le> 2 ^ 27" using a(1) m(1) by simp_all
  then show ?thesis using lo lo' hi hi' r2 by (rule that)
qed

lemma box_side:
  assumes "double_rounding fl" and "k \<le> 511" and "on_grid k sz" and "0 < sz"
    and "on_grid k c" and "on_grid k r" and "c - r \<le> v" and "v \<le> c + r"
  shows "toInt32 (fl (fl (c - r) / sz)) \<le> toInt32 (v / sz) \<and>
     toInt32 (v / sz) \<le> toInt32 (fl (fl (fl (c - r) + fl (r + r)) / sz))"
proof -
  from assms(1,2,5,6) obtain lo hi :: int where b: "\<bar>lo\<bar> \<le> 2 ^ 27" "\<bar>hi\<bar> \<le> 2 ^ 27"
    and lo: "fl (c - r) = of_int lo / 2 ^ k" "c - r = of_int lo / 2 ^ k"
    and hi: "fl (fl (c - r) + fl (r + r)) = of_int hi / 2 ^ k" "c + r = of_int hi / 2 ^ k"
    by (rule fl_box)
  have "toInt32 ((of_int lo / 2 ^ k) / sz) \<le> toInt32 (v / sz) \<and>
     toInt32 (v / sz) \<le> toInt32 ((of_int hi / 2 ^ k) / sz)"
    by (rule toInt32_between [OF assms(4)])
      (use assms(7,8) lo(2) hi(2) grid_in_range [OF assms(3,4)] b in simp_all)
  then show ?thesis
    unfolding hi(1) unfolding lo(1) fl_cell [OF assms(1,3,4) b(1)] fl_cell [OF assms(1,3,4) b(2)] .
qed

lemma cell_in_extent:
  assumes "double_rounding fl" and "k \<le> 511" and "on_grid k (cellSize h)" and "0 < cellSize h"
    and "on_grid k cx" and "on_grid k cy" and "on_grid k r" and "0 \<le> r"
    and "dist2 cx cy x y \<le> r * r"
  shows "(toInt32 (x / cellSize h), toInt32 (y / cellSize h))
     \<in> set (cellsUnderExtent fl h (fl (cx - r)) (fl (cy - r)) (fl (r + r)) (fl (r + r)))"
proof -
  note b = dist2_bound [OF assms(8,9)]
  from box_side [OF assms(1,2,3,4,5,7), of x] box_side [OF assms(1,2,3,4,6,7), of y] b
  show ?thesis unfolding set_cellsUnderExtent by simp
qed

section \<open>The invariant of the point index\<close>

lemma point_inv_empty: "point_inv (PointHash sz)"
  by (simp add: point_inv_def PointHash_def stride_inv_empty)
    (simp add: SpatialHash_def cell_list_def records_def)

lemma point_inv_addPoint:
  assumes "point_inv h"
  shows "point_inv (addPoint h x y v)"
proof -
  from assms have inv: "stride_inv h" "numElements h = 3"
    and ok: "\<And>key. \<forall>rec \<in> set (records 3 (cell_list h key)). point_record_ok (cellSize h) key rec"
    unfolding point_inv_def by blast+
  note a = stride_inv_addPoint [OF inv, of x y v]
  let ?k = "(toInt32 (x / cellSize h), toInt32 (y / cellSize h))"
  have cl: "cell_list (addPoint h x y v) key =
      (if key = ?k then cell_list h key @ [Num x, Num y, v] else cell_list h key)" for key
    by (simp add: addPoint_def Let_def cell_list_addAt)
  have d: "3 dvd length (cell_list h key)" for key
    using cell_list_dvd [OF inv(1), of key] inv(2) by simp
  have "\<forall>rec \<in> set (records 3 (cell_list (addPoint h x y v) key)).
      point_record_ok (cellSize h) key rec" for key
  proof (cases "key = ?k")
    case True
    have "records 3 (cell_list h ?k @ [Num x, Num y, v])
        = records 3 (cell_list h ?k) @ [[Num x, Num y, v]]"
      by (rule records_append) (use d [of ?k] in simp_all)
    with ok [of ?k] show ?thesis by (simp add: cl True)
  next
    case False
    with ok [of key] show ?thesis by (simp add: cl)
  qed
  with a inv(2) show ?thesis by (simp add: point_inv_def)
qed

lemma removePoint_records:
  assumes "point_inv h" and "removePoint h x y = Some (ret, h')"
  shows "stride_inv h' \<and> numElements h' = 3 \<and> cellSize h' = cellSize h \<and>
     (\<forall>key. set (records 3 (cell_list h' key)) \<subseteq> set (records 3 (cell_list h key)))"
proof -
  from assms(1) have inv: "stride_inv h" "numElements h = 3"
    unfolding point_inv_def by blast+
  let ?cx = "toInt32 (x / cellSize h)" and ?cy = "toInt32 (y / cellSize h)"
  let ?args = "[Num x, Num y] :: 'a jsval list"
  let ?recs = "records 3 (cell_list h (?cx, ?cy))"
  have n: "0 < numElements h" "length ?args \<le> numElements h" using inv(2) by simp_all
  show ?thesis
  proof (cases "has_match h ?args (?cx, ?cy)")
    case True
    from remove_step [OF inv(1) n True] inv(2) obtain idx g where
      s: "findIndex h ?cx ?cy ?args = Some idx" "idx \<noteq> - 1"
         "removeAt h ?cx ?cy idx = (?recs ! first_match ?args ?recs, g)"
         "stride_inv g" "numElements g = 3" "cellSize g = cellSize h"
         "\<And>key. cell_list g key =
            (if key = (?cx, ?cy) then concat (remove_first ?args ?recs) else cell_list h key)"
      by auto
    from s(1,2,3) assms(2) have g: "h' = g" by (simp add: removePoint_def Let_def)
    have len: "\<forall>r \<in> set (remove_first ?args ?recs). length r = 3"
      using records_cell_list(2) [OF inv(1) n(1), of "(?cx, ?cy)"] inv(2)
      by (auto simp: remove_first_def dest: in_set_takeD in_set_dropD)
    have "records 3 (concat (remove_first ?args ?recs)) = remove_first ?args ?recs"
      by (rule records_concat [OF _ len]) simp
    then have "set (records 3 (cell_list g key)) \<subseteq> set (records 3 (cell_list h key))" for key
      by (auto simp: s(7) remove_first_def dest: in_set_takeD in_set_dropD)
    with s(4,5,6) show ?thesis by (simp add: g)
  next
    case False
    then have "first_match ?args ?recs = length ?recs"
      using first_match_le [of ?args ?recs] inv(2) by (simp add: has_match_first)
    then have "findIndex h ?cx ?cy ?args = Some (- 1)"
      using findIndex_records [OF inv(1) n, of ?cx ?cy] inv(2) by (simp add: Let_def)
    with assms inv show ?thesis by (simp add: removePoint_def Let_def)
  qed
qed

lemma point_inv_removePoint:
  assumes "point_inv h" and "removePoint h x y = Some (ret, h')"
  shows "point_inv h'"
proof -
  note r = removePoint_records [OF assms]
  from r have cs: "cellSize h' = cellSize h"
    and sub: "\<And>key. set (records 3 (cell_list h' key)) \<subseteq> set (records 3 (cell_list h key))"
    by blast+
  from assms(1) have "\<forall>rec \<in> set (records 3 (cell_list h key)).
      point_record_ok (cellSize h) key rec" for key
    unfolding point_inv_def by blast
  with sub have "\<forall>rec \<in> set (records 3 (cell_list h' key)).
      point_record_ok (cellSize h') key rec" for key
    unfolding cs by blast
  with r show ?thesis by (simp add: point_inv_def)
qed

text \<open>The index stays on the grid when points of the grid are added, and when points are removed.\<close>

lemma grid_points_empty: "grid_points k (PointHash sz)"
  by (simp add: grid_points_def PointHash_def SpatialHash_def cell_list_def records_def)

lemma grid_points_addPoint:
  assumes "point_inv h" and "grid_points k h" and "on_grid k x" and "on_grid k y"
  shows "grid_points k (addPoint h x y v)"
proof -
  from assms(1) have inv: "stride_inv h" "numElements h = 3"
    unfolding point_inv_def by blast+
  from assms(2) have ok: "\<And>key. \<forall>rec \<in> set (records 3 (cell_list h key)). point_on_grid k rec"
    unfolding grid_points_def by blast
  let ?k = "(toInt32 (x / cellSize h), toInt32 (y / cellSize h))"
  have cl: "cell_list (addPoint h x y v) key =
      (if key = ?k then cell_list h key @ [Num x, Num y, v] else cell_list h key)" for key
    by (simp add: addPoint_def Let_def cell_list_addAt)
  have d: "3 dvd length (cell_list h key)" for key
    using cell_list_dvd [OF inv(1), of key] inv(2) by simp
  have "\<forall>rec \<in> set (records 3 (cell_list (addPoint h x y v) key)). point_on_grid k rec" for key
  proof (cases "key = ?k")
    case True
    have "records 3 (cell_list h ?k @ [Num x, Num y, v])
        = records 3 (cell_list h ?k) @ [[Num x, Num y, v]]"
      by (rule records_append) (use d [of ?k] in simp_all)
    with ok [of ?k] assms(3,4) show ?thesis by (simp add: cl True)
  next
    case False
    with ok [of key] show ?thesis by (simp add: cl)
  qed
  then show ?thesis by (simp add: grid_points_def)
qed

lemma grid_points_removePoint:
  assumes "point_inv h" and "grid_points k h" and "removePoint h x y = Some (ret, h')"
  shows "grid_points k h'"
  using removePoint_records [OF assms(1,3)] assms(2) unfolding grid_points_def by blast

lemma point_on_gridE:
  assumes "point_on_grid k [Num x, Num y, v]"
  shows "on_grid k x" and "on_grid k y"
  using assms by simp_all

lemma stored_on_grid:
  assumes "grid_points k h" and "0 < point_copies h x y v"
  shows "on_grid k x \<and> on_grid k y"
proof -
  let ?key = "(toInt32 (x / cellSize h), toInt32 (y / cellSize h))"
  from assms(2) have "count_list (records 3 (cell_list h ?key)) [Num x, Num y, v] \<noteq> 0"
    unfolding point_copies_def by simp
  then have "[Num x, Num y, v] \<in> set (records 3 (cell_list h ?key))"
    by (simp add: count_list_0_iff)
  with assms(1) have "point_on_grid k [Num x, Num y, v]"
    unfolding grid_points_def by blast
  then show ?thesis by simp
qed

text \<open>
  C2, as the code has it. Let \<open>fl\<close> be the rounding of the double arithmetic, and let the
  centre, the radius, the cell size and the stored coordinates be numbers of one grid
  \<open>k \<le> 511\<close>, that is multiples of \<open>1 / 2^k\<close> of magnitude below \<open>2^25 / 2^k\<close>; on these
  numbers the differences, products and sums of \<open>nearbyPoints\<close> and \<open>sqdist\<close> are
  computed without rounding, the cell coordinates are the truncated exact quotients, and
  ToInt32 does not wrap. Let the index satisfy the invariant of the point index (it holds
  for the empty index and is kept by \<open>addPoint\<close> and \<open>removePoint\<close>), with a positive cell
  size, and let \<open>r\<close> be non-negative. Then every record that \<open>nearbyPoints(cx, cy, r)\<close>
  yields is a stored point within Euclidean distance \<open>r\<close>, with its squared distance;
  every stored point within distance \<open>r\<close> is yielded exactly as often as it is stored; a
  stored record lies in the cell of its point only, so that \<open>point_copies\<close> counts all
  its copies; and the cell that the rounded quotients of \<open>addPoint\<close> give for a point of
  the grid is the cell of the exact quotients.
\<close>

theorem nearbyPoints_exact:
  assumes "double_rounding fl" and "k \<le> 511"
    and "point_inv h" and "grid_points k h" and "on_grid k (cellSize h)" and "0 < cellSize h"
    and "on_grid k cx" and "on_grid k cy" and "on_grid k r" and "0 \<le> r"
  shows "(\<forall>out \<in> set (nearbyPoints fl h cx cy r).
            \<exists>x y v. out = [Num x, Num y, v, Num (dist2 cx cy x y)] \<and>
              within_radius cx cy r x y \<and> 0 < point_copies h x y v)
    \<and> (\<forall>x y v. within_radius cx cy r x y \<longrightarrow>
          count_list (nearbyPoints fl h cx cy r) [Num x, Num y, v, Num (dist2 cx cy x y)]
            = point_copies h x y v)
    \<and> (\<forall>key x y v. [Num x, Num y, v] \<in> set (records 3 (cell_list h key)) \<longrightarrow>
          key = (toInt32 (x / cellSize h), toInt32 (y / cellSize h)))
    \<and> (\<forall>x. on_grid k x \<longrightarrow> toInt32 (fl (x / cellSize h)) = toInt32 (x / cellSize h))"
proof -
  from assms(1,2,7,9) obtain lo hi :: int where r2: "fl (r * r) = r * r"
    by (rule fl_box)
  show ?thesis
  proof (intro conjI ballI allI impI)
    fix out assume "out \<in> set (nearbyPoints fl h cx cy r)"
    from nearbyPoints_sound [OF assms(3) this] obtain x y v where
      o: "out = [Num x, Num y, v, Num (sqdist fl cx cy x y)]"
        "sqdist fl cx cy x y \<le> fl (r * r)" "0 < point_copies h x y v"
      by blast
    from stored_on_grid [OF assms(4) o(3)] have g: "on_grid k x" "on_grid k y" by simp_all
    note e = sqdist_exact [OF assms(1,2,7,8) g]
    from o(2) have "within_radius cx cy r x y"
      by (simp add: within_radius_iff [OF assms(10)] e r2)
    with o(1,3) e
    show "\<exists>x y v. out = [Num x, Num y, v, Num (dist2 cx cy x y)] \<and>
              within_radius cx cy r x y \<and> 0 < point_copies h x y v"
      by auto
  next
    fix x y v assume "within_radius cx cy r x y"
    then have d: "dist2 cx cy x y \<le> r * r" by (simp add: within_radius_iff [OF assms(10)])
    note c = cell_in_extent [OF assms(1,2,5,6,7,8,9,10) d]
    show "count_list (nearbyPoints fl h cx cy r) [Num x, Num y, v, Num (dist2 cx cy x y)]
            = point_copies h x y v"
    proof (cases "0 < point_copies h x y v")
      case True
      from stored_on_grid [OF assms(4) True] have g: "on_grid k x" "on_grid k y" by simp_all
      note e = sqdist_exact [OF assms(1,2,7,8) g]
      from c d show ?thesis by (simp add: count_nearbyPoints [OF assms(3)] e r2)
    next
      case False
      then show ?thesis by (simp add: count_nearbyPoints [OF assms(3)])
    qed
  next
    fix key x y v assume "[Num x, Num y, v] \<in> set (records 3 (cell_list h key))"
    with assms(3) show "key = (toInt32 (x / cellSize h), toInt32 (y / cellSize h))"
      by (rule point_inv_cell)
  next
    fix x assume "on_grid k x"
    with assms(1,5,6) show "toInt32 (fl (x / cellSize h)) = toInt32 (x / cellSize h)"
      by (rule fl_grid_cell)
  qed
qed

theorem nearbyPoints_exact_witness:
  "double_rounding (\<lambda>v. v)
   \<and> point_inv (addPoint (addPoint (PointHash 10) 20 16 (Val ''charlie'')) 5 13 (Val ''bar''))
   \<and> grid_points 0 (addPoint (addPoint (PointHash 10) 20 16 (Val ''charlie'')) 5 13 (Val ''bar''))
   \<and> on_grid 0 10 \<and> on_grid 0 20 \<and> on_grid 0 18 \<and> on_grid 0 4
   \<and> within_radius 20 18 4 20 16
   \<and> count_list
        (nearbyPoints (\<lambda>v. v)
           (addPoint (addPoint (PointHash 10) 20 16 (Val ''charlie'')) 5 13 (Val ''bar''))
           20 18 4)
        [Num 20, Num 16, Val ''charlie'', Num 4] = 1"
proof -
  let ?h = "addPoint (addPoint (PointHash 10) 20 16 (Val ''charlie'')) 5 13 (Val ''bar'')"
  have fl: "double_rounding (\<lambda>v. v)" by (simp add: double_rounding_def mono_def)
  have g: "on_grid 0 10" "on_grid 0 20" "on_grid 0 18" "on_grid 0 4"
    "on_grid 0 16" "on_grid 0 5" "on_grid 0 13"
    by (simp_all add: on_grid_def)
  have inv: "point_inv ?h"
    by (intro point_inv_addPoint point_inv_empty)
  have gp: "grid_points 0 ?h"
    by (intro grid_points_addPoint point_inv_addPoint point_inv_empty grid_points_empty g)
  have sz: "cellSize ?h = 10"
    by (simp add: addPoint_def addAt_def Let_def PointHash_def SpatialHash_def)
  have w: "within_radius 20 18 4 20 16"
    by (simp add: within_radius_iff dist2_def)
  have s: "dist2 20 18 20 16 = 4" by (simp add: dist2_def)
  have c: "point_copies ?h 20 16 (Val ''charlie'') = 1"
    by (simp add: point_copies_def cell_list_def addPoint_def addAt_def Let_def PointHash_def
        SpatialHash_def toInt32_floor records_def)
  have p: "on_grid 0 (cellSize ?h)" "0 < cellSize ?h" by (simp_all add: sz g)
  have k: "(0::nat) \<le> 511" by simp
  have r: "(0::real) \<le> 4" by simp
  from nearbyPoints_exact [OF fl k inv gp p g(2,3,4) r] w
  have "count_list (nearbyPoints (\<lambda>v. v) ?h 20 18 4)
      [Num 20, Num 16, Val ''charlie'', Num (dist2 20 18 20 16)]
        = point_copies ?h 20 16 (Val ''charlie'')"
    by blast
  with s c inv w fl gp g show ?thesis by simp
qed

text \<open>
  C2 as stated fails for a negative radius and beyond the 32-bit range of cell
  coordinates, at inputs where no arithmetic result is rounded (\<open>fl\<close> is the identity on
  them). With cell size 10 and the point \<open>(0, 0)\<close>, the query at \<open>(0.5, 0)\<close> with radius
  \<open>-1\<close> yields the point, which is not within distance \<open>-1\<close>. With cell size 1 and the
  point \<open>(2^31, 0)\<close>, stored in cell \<open>(-2^31, 0)\<close>, the query at \<open>(2^31 - 1, 0)\<close> with
  radius 2 yields nothing, and the point is at distance 1.
\<close>

theorem nearbyPoints_exact_counterexample:
  "nearbyPoints (\<lambda>v. v) (addPoint (PointHash 10 :: unit SpatialHash) 0 0 Undefined) (1 / 2) 0 (- 1)
     = [[Num 0, Num 0, Undefined, Num (1 / 4)]]
   \<and> \<not> within_radius (1 / 2) 0 (- 1) 0 0
   \<and> nearbyPoints (\<lambda>v. v) (addPoint (PointHash 1 :: unit SpatialHash) (2 ^ 31) 0 Undefined)
         (2 ^ 31 - 1) 0 2 = []
   \<and> within_radius (2 ^ 31 - 1) 0 2 (2 ^ 31) 0"
proof -
  have a: "nearbyPoints (\<lambda>v. v) (addPoint (PointHash 10 :: unit SpatialHash) 0 0 Undefined)
       (1 / 2) 0 (- 1)
     = [[Num 0, Num 0, Undefined, Num (1 / 4)]]"
    by (simp add: nearbyPoints_def cellsUnderExtent_def addPoint_def addAt_def Let_def
        PointHash_def SpatialHash_def toInt32_floor nearby_scan.simps nth_js_def sqdist_def)
  have "0 \<le> sqrt (dist2 (1 / 2) 0 0 0)" by (simp add: dist2_nonneg)
  then have b: "\<not> within_radius (1 / 2) 0 (- 1) 0 0"
    unfolding within_radius_def by linarith
  have c: "nearbyPoints (\<lambda>v. v) (addPoint (PointHash 1 :: unit SpatialHash) (2 ^ 31) 0 Undefined)
         (2 ^ 31 - 1) 0 2 = []"
    by (simp add: nearbyPoints_def cellsUnderExtent_def addPoint_def addAt_def Let_def
        PointHash_def SpatialHash_def toInt32_floor)
  have d: "within_radius (2 ^ 31 - 1) 0 2 (2 ^ 31) 0"
    by (simp add: within_radius_iff dist2_def)
  from a b c d show ?thesis by blast
qed

section \<open>The scan of findIntersects\<close>







section \<open>Soundness and completeness of findIntersects\<close>





lemma segment_inv_removeSegment:
  assumes "segment_inv h" and "removeSegment h x1 y1 x2 y2 = Some (ret, h')"
  shows "segment_inv h'"
proof -
  from assms(1) have inv: "stride_inv h" "numElements h = 5"
    and ok: "\<And>key. \<forall>rec \<in> set (records 5 (cell_list h key)). segment_record_ok rec"
    unfolding segment_inv_def by blast+
  let ?args = "[Num x1, Num y1, Num x2, Num y2] :: 'a jsval list"
  let ?cells = "cellsUnderSegment h x1 y1 x2 y2 (default_eps h)"
  from removeSegment_cases [OF inv, of x1 y1 x2 y2] assms(2) have
    s: "stride_inv h'"
       "\<And>key. cell_list h' key =
          (if key \<in> set (takeWhile (has_match h ?args) ?cells)
           then concat (remove_first ?args (records 5 (cell_list h key)))
           else cell_list h key)"
    by auto
  from stride_inv_removeSegment [OF inv, of x1 y1 x2 y2] assms(2)
  have n: "numElements h' = 5" using inv(2) by auto
  have "\<forall>rec \<in> set (records 5 (cell_list h' key)). segment_record_ok rec" for key
  proof (cases "key \<in> set (takeWhile (has_match h ?args) ?cells)")
    case True
    have len: "\<forall>r \<in> set (remove_first ?args (records 5 (cell_list h key))). length r = 5"
      using records_cell_list(2) [OF inv(1), of key] inv(2)
      by (auto simp: remove_first_def dest: in_set_takeD in_set_dropD)
    have "records 5 (concat (remove_first ?args (records 5 (cell_list h key))))
        = remove_first ?args (records 5 (cell_list h key))"
      by (rule records_concat [OF _ len]) simp
    with ok [of key] True show ?thesis
      by (auto simp: s(2) remove_first_def dest: in_set_takeD in_set_dropD)
  next
    case False
    with ok [of key] show ?thesis by (simp add: s(2))
  qed
  with s(1) n show ?thesis by (simp add: segment_inv_def)
qed



lemma consts_foldl_addAt:
  "numElements (foldl (\<lambda>g (cellX, cellY). addAt g cellX cellY args) h cs) = numElements h
   \<and> cellSize (foldl (\<lambda>g (cellX, cellY). addAt g cellX cellY args) h cs) = cellSize h"
  by (induction cs arbitrary: h) (auto simp: consts_addAt)

lemma consts_addSegment:
  "numElements (addSegment h x1 y1 x2 y2 v) = numElements h"
  "cellSize (addSegment h x1 y1 x2 y2 v) = cellSize h"
  "default_eps (addSegment h x1 y1 x2 y2 v) = default_eps h"
  by (simp_all add: addSegment_def consts_foldl_addAt default_eps_def)






section \<open>Queries and the map\<close>

lemma findSubArray_from_returns:
  assumes "0 < stride"
  shows "\<exists>r. findSubArray_from arr stride args i = Some r"
proof (induction "length arr - i" arbitrary: i rule: less_induct)
  case less
  show ?case
  proof (cases "i < length arr \<and> found_count arr i args \<noteq> length args")
    case True
    then have "length arr - (i + stride) < length arr - i" using assms by linarith
    from less [OF this] True show ?thesis
      by (subst findSubArray_from.simps) simp
  next
    case False
    then show ?thesis by (subst findSubArray_from.simps) auto
  qed
qed

lemma find_returns:
  fixes h :: "'v SpatialHash"
  assumes "0 < numElements h"
  shows "\<exists>r. findIndex h cellX cellY args = Some r"
    and "\<exists>r. findValues h cellX cellY args = Some r"
    and "\<exists>r. findPoint h x y = Some r"
    and "\<exists>r. findSegment h x1 y1 x2 y2 = Some r"
proof -
  have f: "\<exists>r. findSubArray arr (numElements h) args' = Some r"
    for arr args' :: "'v jsval list"
    unfolding findSubArray_def by (rule findSubArray_from_returns [OF assms])
  show "\<exists>r. findIndex h cellX cellY args = Some r"
  proof (cases "map_js h (cellX, cellY)")
    case None
    then show ?thesis by (simp add: findIndex_def)
  next
    case (Some arr)
    with f [of arr args] show ?thesis by (simp add: findIndex_def)
  qed
  show v: "\<exists>r. findValues h cellX cellY args = Some r" for cellX cellY args
  proof (cases "map_js h (cellX, cellY)")
    case None
    then show ?thesis by (simp add: findValues_def)
  next
    case (Some arr)
    from f [of arr args] obtain r where "findSubArray arr (numElements h) args = Some r"
      by blast
    with Some show ?thesis by (simp add: findValues_def)
  qed
  show "\<exists>r. findPoint h x y = Some r"
    using v by (simp add: findPoint_def Let_def)
  show "\<exists>r. findSegment h x1 y1 x2 y2 = Some r"
    using v by (simp add: findSegment_def Let_def)
qed

text \<open>
  Every program of a query returns what the query function of the sections above
  returns, with the index it was started on.
\<close>

lemma found_count_st:
  "found_count_st ref i args h = (found_count (cell_list h ref) i args, h)"
  by (induction args arbitrary: i) (simp_all add: get_elem_def)

lemma findSubArray_from_st_state:
  assumes "findSubArray_from_st ref stride args i h = Some y"
  shows "snd y = h \<and> findSubArray_from (cell_list h ref) stride args i = Some (fst y)"
  using assms
proof (induct rule: findSubArray_from_st.raw_induct [rotated 1, consumes 1, case_names 1])
  case (1 f ref stride args i h y)
  show ?case
  proof (cases "i < length (cell_list h ref)")
    case False
    with 1(2) show ?thesis
      by (subst findSubArray_from.simps) (auto simp: get_length_def)
  next
    case True
    show ?thesis
    proof (cases "found_count (cell_list h ref) i args = length args")
      case f: True
      with True 1(2) show ?thesis
        by (subst findSubArray_from.simps) (auto simp: get_length_def found_count_st)
    next
      case f: False
      with True 1(2) have "f ref stride args (i + stride) h = Some y"
        by (simp add: get_length_def found_count_st)
      then have "snd y = h \<and>
          findSubArray_from (cell_list h ref) stride args (i + stride) = Some (fst y)"
        by (rule 1(1))
      with True f show ?thesis
        by (subst findSubArray_from.simps) simp
    qed
  qed
qed

lemma findSubArray_from_pure_state:
  assumes "findSubArray_from arr stride args i = Some r"
  shows "arr = cell_list h ref \<longrightarrow> findSubArray_from_st ref stride args i h = Some (r, h)"
  using assms
proof (induct rule: findSubArray_from.raw_induct [rotated 1, consumes 1, case_names 1])
  case (1 f arr stride args i r)
  show ?case
  proof
    assume a: "arr = cell_list h ref"
    show "findSubArray_from_st ref stride args i h = Some (r, h)"
    proof (cases "i < length arr \<and> found_count arr i args \<noteq> length args")
      case True
      with 1(2) have "f arr stride args (i + stride) = Some r" by simp
      then have "arr = cell_list h ref \<longrightarrow>
          findSubArray_from_st ref stride args (i + stride) h = Some (r, h)"
        by (rule 1(1))
      with a True show ?thesis
        by (subst findSubArray_from_st.simps) (simp add: get_length_def found_count_st)
    next
      case False
      with 1(2) a show ?thesis
        by (subst findSubArray_from_st.simps)
          (auto simp: get_length_def found_count_st split: if_splits)
    qed
  qed
qed

lemma findSubArray_from_st_eq:
  "findSubArray_from_st ref stride args i h =
     map_option (\<lambda>r. (r, h)) (findSubArray_from (cell_list h ref) stride args i)"
proof (cases "findSubArray_from (cell_list h ref) stride args i")
  case (Some r)
  from findSubArray_from_pure_state [OF this, of h ref] Some show ?thesis by simp
next
  case None
  have "findSubArray_from_st ref stride args i h = None"
  proof (cases "findSubArray_from_st ref stride args i h")
    case (Some y)
    from findSubArray_from_st_state [OF this] None show ?thesis by simp
  qed simp
  with None show ?thesis by simp
qed

lemma findSubArray_st_eq:
  "findSubArray_st ref stride args h =
     map_option (\<lambda>r. (r, h)) (findSubArray (cell_list h ref) stride args)"
  by (simp add: findSubArray_st_def findSubArray_def findSubArray_from_st_eq)

lemma findIndex_st_eq:
  "findIndex_st h cellX cellY args = map_option (\<lambda>r. (r, h)) (findIndex h cellX cellY args)"
  by (cases "map_js h (cellX, cellY)")
    (simp_all add: findIndex_st_def findIndex_def get_cell_def get_numElements_def
      findSubArray_st_eq cell_list_def)

lemma findValues_st_eq:
  "findValues_st h cellX cellY args = map_option (\<lambda>r. (r, h)) (findValues h cellX cellY args)"
proof (cases "map_js h (cellX, cellY)")
  case None
  then show ?thesis by (simp add: findValues_st_def findValues_def get_cell_def)
next
  case (Some arr)
  then have c: "cell_list h (cellX, cellY) = arr" by (simp add: cell_list_def)
  show ?thesis
  proof (cases "findSubArray arr (numElements h) args")
    case None
    with Some c show ?thesis
      by (simp add: findValues_st_def findValues_def get_cell_def get_numElements_def
          findSubArray_st_eq)
  next
    case (Some idx)
    with \<open>map_js h (cellX, cellY) = Some arr\<close> c show ?thesis
      by (simp add: findValues_st_def findValues_def get_cell_def get_numElements_def
          get_slice_def findSubArray_st_eq)
  qed
qed

lemma findPoint_st_eq:
  "findPoint_st h x y = map_option (\<lambda>r. (r, h)) (findPoint h x y)"
  by (simp add: findPoint_st_def findPoint_def get_cellSize_def Let_def findValues_st_eq)

lemma findSegment_st_eq:
  "findSegment_st h x1 y1 x2 y2 = map_option (\<lambda>r. (r, h)) (findSegment h x1 y1 x2 y2)"
  by (simp add: findSegment_st_def findSegment_def get_cellSize_def Let_def findValues_st_eq)

lemma cellsUnderExtent_st_eq:
  "cellsUnderExtent_st fl h x y width height = (cellsUnderExtent fl h x y width height, h)"
  by (simp add: cellsUnderExtent_st_def cellsUnderExtent_def get_cellSize_def Let_def)

lemma cellsUnderSegment_st_eq:
  "cellsUnderSegment_st h x1 y1 x2 y2 eps = (cellsUnderSegment h x1 y1 x2 y2 eps, h)"
  by (simp add: cellsUnderSegment_st_def cellsUnderSegment_def segment_walk_def
      get_cellSize_def Let_def)

lemma nearby_scan_st_eq:
  "nearby_scan_st fl ref cx cy r2 i h = (nearby_scan fl (cell_list h ref) cx cy r2 i, h)"
proof (induction "length (cell_list h ref) - i" arbitrary: i rule: less_induct)
  case less
  show ?case
  proof (cases "i < length (cell_list h ref)")
    case True
    then have "length (cell_list h ref) - (i + 3) < length (cell_list h ref) - i" by linarith
    from less [OF this] True show ?thesis
      by (subst nearby_scan_st.simps, subst nearby_scan.simps)
        (simp add: get_length_def get_elem_def Let_def)
  next
    case False
    then show ?thesis
      by (subst nearby_scan_st.simps, subst nearby_scan.simps) (simp add: get_length_def)
  qed
qed

lemma nearby_cells_st_eq:
  "nearby_cells_st fl cx cy r2 cs h =
     (concat (map (\<lambda>key. case map_js h key of
                            None \<Rightarrow> []
                          | Some arr \<Rightarrow> nearby_scan fl arr cx cy r2 0) cs), h)"
proof (induction cs)
  case Nil
  then show ?case by simp
next
  case (Cons key cs)
  then show ?case
    by (cases "map_js h key") (simp_all add: get_cell_def nearby_scan_st_eq cell_list_def)
qed

lemma nearbyPoints_st_eq:
  "nearbyPoints_st fl h cx cy r = (nearbyPoints fl h cx cy r, h)"
  by (simp add: nearbyPoints_st_def nearbyPoints_def Let_def cellsUnderExtent_st_eq
      nearby_cells_st_eq)

lemma near_segment_scan_st_eq:
  "near_segment_scan_st ref x1 y1 x2 y2 eps2 i h =
     (near_segment_scan (cell_list h ref) x1 y1 x2 y2 eps2 i, h)"
proof (induction "length (cell_list h ref) - i" arbitrary: i rule: less_induct)
  case less
  show ?case
  proof (cases "i < length (cell_list h ref)")
    case True
    then have "length (cell_list h ref) - (i + 3) < length (cell_list h ref) - i" by linarith
    from less [OF this] True show ?thesis
      by (subst near_segment_scan_st.simps, subst near_segment_scan.simps)
        (simp add: get_length_def get_elem_def Let_def)
  next
    case False
    then show ?thesis
      by (subst near_segment_scan_st.simps, subst near_segment_scan.simps)
        (simp add: get_length_def)
  qed
qed

lemma near_segment_cells_st_eq:
  "near_segment_cells_st x1 y1 x2 y2 eps2 cs h =
     (concat (map (\<lambda>key. case map_js h key of
                            None \<Rightarrow> []
                          | Some arr \<Rightarrow> near_segment_scan arr x1 y1 x2 y2 eps2 0) cs), h)"
proof (induction cs)
  case Nil
  then show ?case by simp
next
  case (Cons key cs)
  then show ?case
    by (cases "map_js h key") (simp_all add: get_cell_def near_segment_scan_st_eq cell_list_def)
qed

lemma pointsNearSegment_st_eq:
  "pointsNearSegment_st h x1 y1 x2 y2 eps = (pointsNearSegment h x1 y1 x2 y2 eps, h)"
  by (simp add: pointsNearSegment_st_def pointsNearSegment_def Let_def cellsUnderSegment_st_eq
      near_segment_cells_st_eq)

lemma intersects_scan_st_eq:
  "intersects_scan_st ref x1 y1 x2 y2 prev i h =
     (intersects_scan (cell_list h ref) x1 y1 x2 y2 prev i, h)"
proof (induction "length (cell_list h ref) - i" arbitrary: i prev rule: less_induct)
  case less
  show ?case
  proof (cases "i < length (cell_list h ref)")
    case True
    then have "length (cell_list h ref) - (i + 5) < length (cell_list h ref) - i" by linarith
    note ih = less [OF this]
    from True show ?thesis
      by (subst intersects_scan_st.simps, subst intersects_scan.simps)
        (simp add: get_length_def get_elem_def Let_def ih split: prod.splits)
  next
    case False
    then show ?thesis
      by (subst intersects_scan_st.simps, subst intersects_scan.simps)
        (simp add: get_length_def)
  qed
qed

lemma intersects_cells_st_eq:
  "intersects_cells_st x1 y1 x2 y2 prev cs h = (intersects_cells h x1 y1 x2 y2 prev cs, h)"
proof (induction cs arbitrary: prev)
  case Nil
  then show ?case by simp
next
  case (Cons key cs)
  then show ?case
    by (cases "map_js h key")
      (simp_all add: get_cell_def intersects_scan_st_eq cell_list_def split: prod.splits)
qed

lemma findIntersects_st_eq:
  "findIntersects_st h x1 y1 x2 y2 eps = (findIntersects h x1 y1 x2 y2 eps, h)"
  by (simp add: findIntersects_st_def findIntersects_def cellsUnderSegment_st_eq
      intersects_cells_st_eq)

lemma call_query:
  assumes "is_query q"
  shows "(\<forall>h'. call fl h q = Some h' \<longrightarrow> h' = h) \<and>
     (0 < numElements h \<longrightarrow> call fl h q = Some h)"
proof (cases q)
  case (FindIndex cellX cellY args)
  then show ?thesis
    using find_returns(1) [of h cellX cellY args] by (auto simp: findIndex_st_eq)
next
  case (FindValues cellX cellY args)
  then show ?thesis
    using find_returns(2) [of h cellX cellY args] by (auto simp: findValues_st_eq)
next
  case (FindPoint x y)
  then show ?thesis using find_returns(3) [of h x y] by (auto simp: findPoint_st_eq)
next
  case (FindSegment x1 y1 x2 y2)
  then show ?thesis
    using find_returns(4) [of h x1 y1 x2 y2] by (auto simp: findSegment_st_eq)
next
  case (NearbyPoints cx cy r)
  then show ?thesis by (simp add: nearbyPoints_st_eq)
next
  case (PointsNearSegment x1 y1 x2 y2 eps)
  then show ?thesis by (simp add: pointsNearSegment_st_eq)
next
  case (FindIntersects x1 y1 x2 y2 eps)
  then show ?thesis by (simp add: findIntersects_st_eq)
next
  case (CellsUnderExtent x y width height)
  then show ?thesis by (simp add: cellsUnderExtent_st_eq)
next
  case (CellsUnderSegment x1 y1 x2 y2 eps)
  then show ?thesis by (simp add: cellsUnderSegment_st_eq)
qed (use assms in simp_all)

lemma consts_removePoint:
  "removePoint h x y = Some (ret, h') \<Longrightarrow> numElements h' = numElements h"
  by (auto simp: removePoint_def Let_def consts_removeAt split: option.splits if_splits prod.splits)
    (metis consts_removeAt(1) snd_conv)

lemma consts_removeSegment_loop:
  "removeSegment_loop g args cs val = Some (ret, g') \<Longrightarrow> numElements g' = numElements g"
proof (induction cs arbitrary: g val)
  case Nil
  then show ?case by simp
next
  case (Cons c cs)
  obtain cx cy where c: "c = (cx, cy)" by (cases c)
  from Cons.prems obtain idx where i: "findIndex g cx cy args = Some idx"
    by (auto simp: c split: option.splits)
  show ?case
  proof (cases "idx = - 1")
    case True
    with Cons.prems i show ?thesis by (simp add: c)
  next
    case False
    obtain r g1 where rg: "removeAt g cx cy idx = (r, g1)" by (cases "removeAt g cx cy idx")
    with Cons.prems i False have "removeSegment_loop g1 args cs (nth_js r 4) = Some (ret, g')"
      by (simp add: c)
    from Cons.IH [OF this] consts_removeAt(1) [of g cx cy idx] rg show ?thesis by simp
  qed
qed

lemma consts_removeSegment:
  "removeSegment h x1 y1 x2 y2 = Some (ret, h') \<Longrightarrow> numElements h' = numElements h"
  by (auto simp: removeSegment_def split: option.splits dest: consts_removeSegment_loop)

lemma call_numElements:
  "call fl h c = Some h' \<Longrightarrow> numElements h' = numElements h"
proof (cases c)
  case (RemovePoint x y)
  assume "call fl h c = Some h'"
  with RemovePoint show ?thesis by (auto dest: consts_removePoint)
next
  case (RemoveSegment x1 y1 x2 y2)
  assume "call fl h c = Some h'"
  with RemoveSegment show ?thesis by (auto dest: consts_removeSegment)
qed (auto simp: consts_addAt consts_removeAt consts_addSegment addPoint_def Let_def
    findIndex_st_eq findValues_st_eq findPoint_st_eq findSegment_st_eq nearbyPoints_st_eq
    pointsNearSegment_st_eq findIntersects_st_eq cellsUnderExtent_st_eq cellsUnderSegment_st_eq)

lemma calls_erase_queries:
  "0 < numElements h \<Longrightarrow> calls fl h cs = calls fl h (filter (\<lambda>c. \<not> is_query c) cs)"
proof (induction cs arbitrary: h)
  case Nil
  then show ?case by simp
next
  case (Cons c cs)
  show ?case
  proof (cases "is_query c")
    case True
    with call_query [OF True, of fl h] Cons.prems have "call fl h c = Some h" by simp
    with Cons True show ?thesis by simp
  next
    case False
    show ?thesis
    proof (cases "call fl h c")
      case None
      with False show ?thesis by simp
    next
      case (Some h')
      with call_numElements [OF Some] Cons.prems have "0 < numElements h'" by simp
      from Cons.IH [OF this] Some False show ?thesis by simp
    qed
  qed
qed

text \<open>
  C10. Each of the nine query methods (\<open>findPoint\<close>, \<open>findSegment\<close>, \<open>findIndex\<close>,
  \<open>findValues\<close>, \<open>nearbyPoints\<close>, \<open>pointsNearSegment\<close>, \<open>findIntersects\<close>,
  \<open>cellsUnderExtent\<close>, \<open>cellsUnderSegment\<close>), run as a program on the store that
  performs every access of its body, ends, when it returns, in the index it was started
  on, with every key, every cell array, \<open>numElements\<close> and \<open>cellSize\<close>, also after its
  result sequence has been consumed. With a positive stride every query returns, and the
  queries can be left out of any sequence of calls without a change of the index that the
  sequence ends in.
\<close>

theorem queries_read_only:
  "(is_query q \<longrightarrow> (\<forall>h'. call fl h q = Some h' \<longrightarrow> h' = h))
   \<and> (0 < numElements h \<longrightarrow>
        (is_query q \<longrightarrow> call fl h q = Some h)
        \<and> calls fl h cs = calls fl h (filter (\<lambda>c. \<not> is_query c) cs))"
  using call_query [of q fl h] calls_erase_queries [of h fl cs] by auto

theorem queries_read_only_witness:
  "is_query (FindPoint 12 14 :: string operation)
   \<and> 0 < numElements (addPoint (PointHash 10) 12 14 (Val ''foo''))
   \<and> call (\<lambda>v. v) (addPoint (PointHash 10) 12 14 (Val ''foo'')) (FindPoint 12 14)
       = Some (addPoint (PointHash 10) 12 14 (Val ''foo''))
   \<and> calls (\<lambda>v. v) (addPoint (PointHash 10) 12 14 (Val ''foo''))
         [FindPoint 12 14, AddPoint 5 13 (Val ''bar''), NearbyPoints 20 18 4]
       = Some (addPoint (addPoint (PointHash 10) 12 14 (Val ''foo'')) 5 13 (Val ''bar''))"
proof -
  let ?h = "addPoint (PointHash 10) 12 14 (Val ''foo'')"
  have q: "is_query (FindPoint 12 14 :: string operation)" by simp
  have n: "0 < numElements ?h"
    by (simp add: addPoint_def Let_def consts_addAt PointHash_def SpatialHash_def)
  from queries_read_only [of "FindPoint 12 14" "\<lambda>v. v" ?h
      "[FindPoint 12 14, AddPoint 5 13 (Val ''bar''), NearbyPoints 20 18 4]"] q n
  show ?thesis by simp
qed

section \<open>The cells around the start point\<close>

lemma consts_PointHash:
  "numElements (PointHash sz) = 3" "cellSize (PointHash sz) = sz"
  "cell_list (PointHash sz) key = []"
  by (simp_all add: PointHash_def SpatialHash_def cell_list_def)

text \<open>
  C1 at a segment that stays in one cell. With cell size 10 and \<open>eps = 2\<close> the segment
  from \<open>(11, 19)\<close> to \<open>(19, 11)\<close> starts and ends in cell \<open>(1, 1)\<close>, so the loop body, which
  tests the boundaries around the current point, is never executed, and only the
  boundaries around the end point are tested. The point \<open>(9.5, 19)\<close> of cell \<open>(0, 1)\<close> is
  at distance 1.5 from the start point, but cell \<open>(0, 1)\<close> is not yielded, and
  \<open>pointsNearSegment\<close> does not find the point.
\<close>

theorem cellsUnderSegment_misses_start_neighbours:
  "cellsUnderSegment (PointHash 10 :: string SpatialHash) 11 19 19 11 2
     = [(2, 1), (2, 0), (1, 0), (1, 1)]
   \<and> (toInt32 ((19 / 2) / 10), toInt32 (19 / 10)) = (0, 1)
   \<and> segPointDistSq 11 19 19 11 (19 / 2) 19 = 9 / 4
   \<and> segPointDistSq 11 19 19 11 (19 / 2) 19 \<le> 2 * 2
   \<and> map_js (addPoint (PointHash 10) (19 / 2) 19 (Val ''p'')) (0, 1)
       = Some [Num (19 / 2), Num 19, Val ''p'']
   \<and> pointsNearSegment (addPoint (PointHash 10) (19 / 2) 19 (Val ''p'')) 11 19 19 11 2 = []"
proof -
  let ?h = "addPoint (PointHash 10) (19 / 2) 19 (Val ''p'') :: string SpatialHash"
  have c: "cellsUnderSegment (PointHash 10 :: string SpatialHash) 11 19 19 11 2
     = [(2, 1), (2, 0), (1, 0), (1, 1)]"
    by (simp add: segment_eval consts_PointHash)
  have k: "(toInt32 ((19 / 2) / 10), toInt32 (19 / 10)) = (0, 1)"
    by (simp add: toInt32_floor)
  have d: "segPointDistSq 11 19 19 11 (19 / 2) 19 = 9 / 4"
    by (simp add: segPointDistSq_def Let_def)
  have m: "map_js ?h = (\<lambda>key. if key = (0, 1) then Some [Num (19 / 2), Num 19, Val ''p''] else None)"
    by (simp add: addPoint_def addAt_def Let_def PointHash_def SpatialHash_def toInt32_floor
        fun_eq_iff)
  have sz: "cellSize ?h = cellSize (PointHash 10 :: string SpatialHash)"
    by (simp add: addPoint_def Let_def consts_addAt)
  have c': "cellsUnderSegment ?h 11 19 19 11 2 = [(2, 1), (2, 0), (1, 0), (1, 1)]"
    unfolding cellsUnderSegment_cellSize [OF sz] by (rule c)
  have p: "pointsNearSegment ?h 11 19 19 11 2 = []"
    by (simp add: pointsNearSegment_def Let_def c' m)
  from c k d m p show ?thesis by simp
qed

end
